theory Spec2Isabelle
  imports Complex_Main
begin

unbundle bit_operations_syntax

section \<open>Numbers\<close>

text \<open>
  The program computes with JavaScript numbers. Grid indices, MIDI bytes, measure counts and
  the latency constant only ever hold integers and are modelled as \<open>int\<close>; timestamps,
  durations in milliseconds and deviations are modelled as exact rationals, so the rounding
  error of IEEE doubles is not part of this model: a deviation that is exactly 0 here can be a
  value of the order of \<open>1e-13\<close> ms in the program. What is said below about the value of a
  stored deviation is said of exact arithmetic.
\<close>

definition js_round :: "rat \<Rightarrow> int" where
  \<comment> \<open>\<open>Math.round\<close>: the nearest integer, a tie going towards plus infinity.\<close>
  "js_round x = \<lfloor>x + 1 / 2\<rfloor>"

definition js_rem :: "int \<Rightarrow> int \<Rightarrow> int" where
  \<comment> \<open>The \<open>%\<close> operator on integers: the remainder takes the sign of the dividend.\<close>
  "js_rem a b = sgn a * (\<bar>a\<bar> mod \<bar>b\<bar>)"

section \<open>Data model\<close>

record time_sig =
  beats :: int
  beatValue :: int

record RecordedNote =
  midi :: int
  diffMs :: rat
  measure :: int
  beatIndex :: int
  sixteenthIndex :: int
  durationSixteenths :: int

text \<open>The value stored in the \<open>activeNotes\<close> map on a note-on.\<close>

record start_data =
  startTime :: rat
  mIdx :: int
  bIdx :: int
  sIdx :: int
  startDiffMs :: rat

datatype signal_source = Midi | Keyboard

record midi_signal =
  statusByte :: int
  rawMidi :: int
  vel :: int
  timeStamp :: rat
  source :: signal_source

datatype debug_info =
    NoInfo
  | CalibrationStarting
  | CalibrationComplete rat int
  | CalibrationFailed

text \<open>
  The state of \<open>App\<close>: the React state variables and the refs the handlers read and write.
  \<open>beatTimes\<close> keeps the \<open>perfTime\<close> of every scheduled beat; \<open>activeNotes\<close> is a
  JavaScript \<open>Map\<close>, kept as an association list in insertion order. Every handler of the
  model takes the current state and returns the next one. A React callback may still hold
  the values of an earlier render; the one place where this decides which branch runs is the
  deferred \<open>onStart\<close> of \<open>testLatency\<close>, and it is modelled there.
\<close>

record app_state =
  tempo :: int
  timeSig :: time_sig
  measures :: int
  latencyMs :: int
  isPlaying :: bool
  isIntro :: bool
  recordedNotes :: "RecordedNote list"
  debugInfo :: debug_info
  isLatencyTesting :: bool
  sessionNotes :: "RecordedNote list"
  activeNotes :: "(int \<times> start_data) list"
  isRecording :: bool
  beatTimes :: "rat list"

definition valid_config :: "app_state \<Rightarrow> bool" where
  \<comment> \<open>The values the controls can produce: tempo 40..240, the two selects, 1..32 measures.\<close>
  "valid_config st \<longleftrightarrow>
     40 \<le> tempo st \<and> tempo st \<le> 240 \<and>
     beats (timeSig st) \<in> set [1, 2, 3, 4, 6, 9, 12] \<and>
     beatValue (timeSig st) \<in> set [2, 4, 8] \<and>
     1 \<le> measures st \<and> measures st \<le> 32"

subsection \<open>The \<open>Map\<close> of sounding notes\<close>

fun map_set :: "'k \<Rightarrow> 'v \<Rightarrow> ('k \<times> 'v) list \<Rightarrow> ('k \<times> 'v) list" where
  "map_set k v [] = [(k, v)]"
| "map_set k v ((k', v') # m) = (if k = k' then (k, v) # m else (k', v') # map_set k v m)"

definition map_get :: "('k \<times> 'v) list \<Rightarrow> 'k \<Rightarrow> 'v option" where
  "map_get m k = map_of m k"

definition map_delete :: "'k \<Rightarrow> ('k \<times> 'v) list \<Rightarrow> ('k \<times> 'v) list" where
  "map_delete k m = filter (\<lambda>kv. fst kv \<noteq> k) m"

section \<open>Timing constants\<close>

definition sixteenthsPerBeat :: "app_state \<Rightarrow> int" where
  \<comment> \<open>\<open>16 / timeSig.value\<close>; the select offers 2, 4 and 8, for which the quotient is exact.\<close>
  "sixteenthsPerBeat st = 16 div beatValue (timeSig st)"

definition beatDurMs :: "app_state \<Rightarrow> rat" where
  "beatDurMs st = (60 / of_int (tempo st)) * 1000"

definition sixteenthDurMs :: "app_state \<Rightarrow> rat" where
  "sixteenthDurMs st = beatDurMs st / of_int (sixteenthsPerBeat st)"

section \<open>Event classification\<close>

definition command_of :: "int \<Rightarrow> int" where
  "command_of status = status AND 0xF0"

definition isNoteOn :: "int \<Rightarrow> int \<Rightarrow> bool" where
  "isNoteOn status v \<longleftrightarrow> command_of status = 0x90 \<and> v > 0"

definition isNoteOff :: "int \<Rightarrow> int \<Rightarrow> bool" where
  "isNoteOff status v \<longleftrightarrow>
     command_of status = 0x80 \<or> (command_of status = 0x90 \<and> v = 0)"

section \<open>Grid quantizer (note-on)\<close>

text \<open>
  The search over \<open>beatTimes\<close>: indices below \<open>timeSig.beats\<close> are skipped, a strictly
  smaller distance replaces the best so far. \<open>minDist\<close> starts at \<open>Infinity\<close>, here \<open>None\<close>.
\<close>

definition bestBeat_step :: "int \<Rightarrow> rat \<Rightarrow> int \<times> rat option \<Rightarrow> nat \<times> rat \<Rightarrow> int \<times> rat option" where
  "bestBeat_step bts perfTime acc ib =
     (if int (fst ib) < bts then acc
      else let d = \<bar>snd ib - perfTime\<bar> in
        if (case snd acc of None \<Rightarrow> True | Some minDist \<Rightarrow> d < minDist)
        then (int (fst ib) - bts, Some d) else acc)"

definition findBestBeat :: "int \<Rightarrow> rat \<Rightarrow> rat list \<Rightarrow> int" where
  "findBestBeat bts perfTime bt =
     fst (foldl (bestBeat_step bts perfTime) (- 1, None) (enumerate 0 bt))"

text \<open>
  The two normalisation loops. With a step that is not positive they never end, so they are
  partial functions: \<open>None\<close> stands for a loop that does not return.
\<close>

partial_function (option) carryLoop :: "int \<Rightarrow> int \<Rightarrow> int \<Rightarrow> (int \<times> int) option" where
  [code]: "carryLoop spb fSixteenIdx fBeatIdx =
     (if fSixteenIdx \<ge> spb then carryLoop spb (fSixteenIdx - spb) (fBeatIdx + 1)
      else Some (fSixteenIdx, fBeatIdx))"

partial_function (option) borrowLoop :: "int \<Rightarrow> int \<Rightarrow> int \<Rightarrow> (int \<times> int) option" where
  [code]: "borrowLoop spb fSixteenIdx fBeatIdx =
     (if fSixteenIdx < 0 then borrowLoop spb (fSixteenIdx + spb) (fBeatIdx - 1)
      else Some (fSixteenIdx, fBeatIdx))"

definition normalizeGrid :: "int \<Rightarrow> int \<Rightarrow> int \<Rightarrow> (int \<times> int) option" where
  "normalizeGrid spb sixteenIdxRaw bestBeatIdx =
     (case carryLoop spb sixteenIdxRaw bestBeatIdx of
        None \<Rightarrow> None
      | Some (f, b) \<Rightarrow> borrowLoop spb f b)"

definition recordNoteOn :: "app_state \<Rightarrow> int \<Rightarrow> rat \<Rightarrow> app_state option" where
  "recordNoteOn st m perfTime =
     (let bestBeatIdx = findBestBeat (beats (timeSig st)) perfTime (beatTimes st) in
      if bestBeatIdx \<ge> 0 then
        let targetBeatTime = beatTimes st ! nat (bestBeatIdx + beats (timeSig st));
            rawOffset = perfTime - targetBeatTime;
            sixteenIdxRaw = js_round (rawOffset / sixteenthDurMs st)
        in case normalizeGrid (sixteenthsPerBeat st) sixteenIdxRaw bestBeatIdx of
             None \<Rightarrow> None
           | Some (fSixteenIdx, fBeatIdx) \<Rightarrow>
               Some (st\<lparr>activeNotes := map_set m
                   \<lparr>startTime = perfTime,
                    mIdx = fBeatIdx div beats (timeSig st),
                    bIdx = js_rem fBeatIdx (beats (timeSig st)),
                    sIdx = fSixteenIdx,
                    startDiffMs = rawOffset - of_int sixteenIdxRaw * sixteenthDurMs st\<rparr>
                   (activeNotes st)\<rparr>)
      else Some st)"

text \<open>
  Two readings of that computation, used to state properties of it once the search has
  found a beat: the value of \<open>fBeatIdx\<close> after the normalisation loops, and how far the beat
  selected by the search lies from the grid of the post-intro beat \<open>k\<close>, that is from a whole
  number of beat durations after it.
\<close>

definition normalizedBeatIdx :: "app_state \<Rightarrow> rat \<Rightarrow> int option" where
  "normalizedBeatIdx st perfTime =
     (let bestBeatIdx = findBestBeat (beats (timeSig st)) perfTime (beatTimes st);
          targetBeatTime = beatTimes st ! nat (bestBeatIdx + beats (timeSig st));
          rawOffset = perfTime - targetBeatTime;
          sixteenIdxRaw = js_round (rawOffset / sixteenthDurMs st)
      in map_option snd (normalizeGrid (sixteenthsPerBeat st) sixteenIdxRaw bestBeatIdx))"

definition targetOffGrid :: "app_state \<Rightarrow> rat \<Rightarrow> int \<Rightarrow> rat" where
  "targetOffGrid st perfTime k =
     (let bestBeatIdx = findBestBeat (beats (timeSig st)) perfTime (beatTimes st);
          targetBeatTime = beatTimes st ! nat (bestBeatIdx + beats (timeSig st))
      in targetBeatTime -
         (beatTimes st ! nat (k + beats (timeSig st)) + of_int (bestBeatIdx - k) * beatDurMs st))"

section \<open>Duration resolver (note-off and flush)\<close>

definition resolveDuration :: "app_state \<Rightarrow> rat \<Rightarrow> start_data \<Rightarrow> int" where
  "resolveDuration st endTime startData =
     max 1 (js_round ((endTime - startTime startData) / sixteenthDurMs st))"

definition newNote :: "app_state \<Rightarrow> int \<Rightarrow> rat \<Rightarrow> start_data \<Rightarrow> RecordedNote" where
  \<comment> \<open>The random \<open>id\<close> of the source's note object is left out.\<close>
  "newNote st m endTime startData =
     \<lparr>midi = m, diffMs = startDiffMs startData, measure = mIdx startData,
      beatIndex = bIdx startData, sixteenthIndex = sIdx startData,
      durationSixteenths = resolveDuration st endTime startData\<rparr>"

definition inSession :: "app_state \<Rightarrow> start_data \<Rightarrow> bool" where
  "inSession st startData \<longleftrightarrow> mIdx startData \<ge> 0 \<and> mIdx startData < measures st"

definition resolveNoteOff :: "app_state \<Rightarrow> int \<Rightarrow> rat \<Rightarrow> app_state" where
  "resolveNoteOff st m perfTime =
     (case map_get (activeNotes st) m of
        None \<Rightarrow> st
      | Some startData \<Rightarrow>
          let st1 =
            (if inSession st startData then
               let n = newNote st m perfTime startData in
               st\<lparr>recordedNotes :=
                     (if \<not> isLatencyTesting st then recordedNotes st @ [n] else recordedNotes st),
                   sessionNotes := sessionNotes st @ [n]\<rparr>
             else st)
          in st1\<lparr>activeNotes := map_delete m (activeNotes st1)\<rparr>)"

definition pitchOf :: "midi_signal \<Rightarrow> int" where
  \<comment> \<open>\<open>const midi = midiSignal.source === 'midi' ? rawMidi - 24 : rawMidi\<close>\<close>
  "pitchOf sig = (if source sig = Midi then rawMidi sig - 24 else rawMidi sig)"

definition onMidiSignal :: "app_state \<Rightarrow> midi_signal \<Rightarrow> app_state option" where
  "onMidiSignal st sig =
     (let m = pitchOf sig;
          perfTime = timeStamp sig - of_int (latencyMs st)
      in case (if isRecording st \<and> isNoteOn (statusByte sig) (vel sig)
               then recordNoteOn st m perfTime else Some st) of
           None \<Rightarrow> None
         | Some st1 \<Rightarrow>
             Some (if isNoteOff (statusByte sig) (vel sig)
                   then resolveNoteOff st1 m perfTime else st1))"

section \<open>Session control\<close>

definition flushedNotes :: "app_state \<Rightarrow> rat \<Rightarrow> RecordedNote list" where
  "flushedNotes st now =
     map (\<lambda>kv. newNote st (fst kv) (now - of_int (latencyMs st)) (snd kv))
       (filter (\<lambda>kv. inSession st (snd kv)) (activeNotes st))"

definition calibrate :: "app_state \<Rightarrow> app_state" where
  "calibrate st =
     (if sessionNotes st \<noteq> [] then
        let total = foldl (\<lambda>acc n. acc + diffMs n) 0 (sessionNotes st);
            avg = total / of_nat (length (sessionNotes st));
            newLatency = js_round avg
        in st\<lparr>latencyMs := newLatency, debugInfo := CalibrationComplete avg newLatency\<rparr>
      else st\<lparr>debugInfo := CalibrationFailed\<rparr>)"

definition stop :: "app_state \<Rightarrow> rat \<Rightarrow> app_state" where
  "stop st now =
     (let flushed = flushedNotes st now;
          st1 = st\<lparr>sessionNotes := sessionNotes st @ flushed,
                   recordedNotes :=
                     (if flushed \<noteq> [] \<and> \<not> isLatencyTesting st
                      then recordedNotes st @ flushed else recordedNotes st),
                   activeNotes := []\<rparr>;
          st2 = (if isLatencyTesting st1
                 then (calibrate st1)\<lparr>isLatencyTesting := False\<rparr> else st1)
      in st2\<lparr>isPlaying := False, isIntro := False, isRecording := False\<rparr>)"

definition onStart :: "app_state \<Rightarrow> rat \<Rightarrow> app_state" where
  "onStart st now =
     (if isPlaying st then stop st now
      else st\<lparr>isRecording := False, beatTimes := [], recordedNotes := [],
              sessionNotes := [], isPlaying := True, isIntro := True\<rparr>)"

text \<open>
  \<open>testLatency\<close> ends with \<open>setTimeout(() => onStart(), 100)\<close>. That \<open>onStart\<close> is the
  function of the render in which the button was clicked, and the \<open>isPlaying\<close> it tests is
  the value of that render, not the one that \<open>stop\<close> has set in the meantime. When a session
  was playing at the click, the deferred call therefore takes the first branch of \<open>onStart\<close>:
  it calls \<open>stop\<close> once more, now with \<open>isLatencyTesting\<close> set, and returns; no run starts.
  When nothing was playing it starts the run.
\<close>

definition testLatency :: "app_state \<Rightarrow> rat \<Rightarrow> app_state" where
  "testLatency st now =
     (let st1 = (if isPlaying st then stop st now else st);
          st2 = st1\<lparr>measures := 4, timeSig := \<lparr>beats = 4, beatValue = 4\<rparr>, latencyMs := 0,
                    isLatencyTesting := True, debugInfo := CalibrationStarting\<rparr>
      in if isPlaying st then stop st2 (now + 100) else onStart st2 (now + 100))"

text \<open>
  What happens during a session, one action at a time. The scheduler \<open>tick\<close> reads two
  clocks; its effect on the state read by the handlers is a beat time appended to
  \<open>beatTimes\<close>, and the timer callback that arms recording once \<open>beats + 1\<close> beats exist.
\<close>

datatype action =
    Signal midi_signal
  | BeatScheduled rat
  | BeatFired
  | Stop rat

definition session_step :: "app_state \<Rightarrow> action \<Rightarrow> app_state option" where
  "session_step st a =
     (case a of
        Signal sig \<Rightarrow> onMidiSignal st sig
      | BeatScheduled perfTime \<Rightarrow> Some (st\<lparr>beatTimes := beatTimes st @ [perfTime]\<rparr>)
      | BeatFired \<Rightarrow>
          Some (if int (length (beatTimes st)) = beats (timeSig st) + 1
                then st\<lparr>isRecording := True, isIntro := False\<rparr> else st)
      | Stop now \<Rightarrow> Some (stop st now))"

fun run :: "app_state \<Rightarrow> action list \<Rightarrow> app_state option" where
  "run st [] = Some st"
| "run st (a # as) = (case session_step st a of None \<Rightarrow> None | Some st' \<Rightarrow> run st' as)"

section \<open>Notation assembler\<close>

text \<open>
  \<open>buildTex\<close> writes one token to the \<open>tex\<close> string and pushes one entry to
  \<open>texMetadata\<close> in each round of its loop. A token of the model is that pair: the
  \<open>hits\<close> of the metadata entry (absent for a rest) and the duration \<open>writeDur\<close> behind the
  rhythm written to \<open>tex\<close>. The header of \<open>tex\<close>, the note names and the bar separators are
  left out.
\<close>

datatype token =
    NoteToken "RecordedNote list" int
  | RestToken int

fun tokenDur :: "token \<Rightarrow> int" where
  "tokenDur (NoteToken hits writeDur) = writeDur"
| "tokenDur (RestToken writeDur) = writeDur"

fun tokenHits :: "token \<Rightarrow> RecordedNote list" where
  "tokenHits (NoteToken hits writeDur) = hits"
| "tokenHits (RestToken writeDur) = []"

definition getNotePos :: "int \<Rightarrow> int \<Rightarrow> RecordedNote \<Rightarrow> int" where
  "getNotePos measureSixteenths spb n =
     measure n * measureSixteenths + beatIndex n * spb + sixteenthIndex n"

definition startsAt :: "int \<Rightarrow> int \<Rightarrow> bool" where
  \<comment> \<open>\<open>Math.abs(getNotePos(n) - currentSixteenth) < 0.1\<close>\<close>
  "startsAt pos currentSixteenth \<longleftrightarrow> \<bar>of_int pos - of_int currentSixteenth\<bar> < (1 / 10 :: rat)"

definition startsAfter :: "int \<Rightarrow> int \<Rightarrow> bool" where
  \<comment> \<open>\<open>getNotePos(n) > currentSixteenth + 0.1\<close>\<close>
  "startsAfter pos currentSixteenth \<longleftrightarrow> of_int pos > of_int currentSixteenth + (1 / 10 :: rat)"

definition snapDuration :: "int \<Rightarrow> int" where
  \<comment> \<open>The first of 16, 8, 4, 2, 1 that fits; \<open>writeDur\<close> stays 1 when none does.\<close>
  "snapDuration maxDur = (case find (\<lambda>d. d \<le> maxDur) [16, 8, 4, 2, 1] of Some d \<Rightarrow> d | None \<Rightarrow> 1)"

definition emitToken :: "int \<Rightarrow> int \<Rightarrow> int \<Rightarrow> RecordedNote list \<Rightarrow> int \<Rightarrow> token" where
  \<comment> \<open>One round of the scan, at cursor \<open>currentSixteenth\<close>.\<close>
  "emitToken spb measureSixteenths totalSixteenths sortedNotes currentSixteenth =
     (let inMeasureIdx = js_rem currentSixteenth measureSixteenths;
          remainingInMeasure = measureSixteenths - inMeasureIdx;
          startsAtSlot =
            filter (\<lambda>n. startsAt (getNotePos measureSixteenths spb n) currentSixteenth) sortedNotes
      in case startsAtSlot of
           n # ns \<Rightarrow>
             let rawDur = foldl max (durationSixteenths n) (map durationSixteenths ns);
                 maxDur = min rawDur remainingInMeasure
             in NoteToken startsAtSlot (snapDuration maxDur)
         | [] \<Rightarrow>
             let nextNote =
                   find (\<lambda>n. startsAfter (getNotePos measureSixteenths spb n) currentSixteenth)
                     sortedNotes;
                 available =
                   min (case nextNote of
                          Some n \<Rightarrow> getNotePos measureSixteenths spb n - currentSixteenth
                        | None \<Rightarrow> totalSixteenths - currentSixteenth)
                     remainingInMeasure
             in RestToken (snapDuration available))"

function buildTex_loop :: "int \<Rightarrow> int \<Rightarrow> int \<Rightarrow> RecordedNote list \<Rightarrow> int \<Rightarrow> token list" where
  "buildTex_loop spb measureSixteenths totalSixteenths sortedNotes currentSixteenth =
     (if currentSixteenth < totalSixteenths then
        emitToken spb measureSixteenths totalSixteenths sortedNotes currentSixteenth #
        buildTex_loop spb measureSixteenths totalSixteenths sortedNotes
          (currentSixteenth +
             tokenDur (emitToken spb measureSixteenths totalSixteenths sortedNotes currentSixteenth))
      else [])"
  by pat_completeness auto
termination
proof (relation "Wellfounded.measure (\<lambda>(spb, ms, total, ns, cur). nat (total - cur))")
  fix spb ms total :: int and ns :: "RecordedNote list" and cur :: int
  assume "cur < total"
  moreover have "snapDuration x \<ge> 1" for x
    by (simp add: snapDuration_def)
  then have "tokenDur (emitToken spb ms total ns cur) \<ge> 1"
    by (simp add: emitToken_def Let_def split: list.split)
  ultimately show "((spb, ms, total, ns,
                     cur + tokenDur (emitToken spb ms total ns cur)),
                    (spb, ms, total, ns, cur))
                   \<in> Wellfounded.measure (\<lambda>(spb, ms, total, ns, cur). nat (total - cur))"
    by simp
qed simp

declare buildTex_loop.simps [simp del]

definition buildTex :: "app_state \<Rightarrow> RecordedNote list \<Rightarrow> token list" where
  "buildTex st notes =
     (let spb = sixteenthsPerBeat st;
          measureSixteenths = beats (timeSig st) * spb;
          totalSixteenths = measures st * measureSixteenths;
          sortedNotes = sort_key (getNotePos measureSixteenths spb) notes
      in buildTex_loop spb measureSixteenths totalSixteenths sortedNotes 0)"

text \<open>
  The cursor position at which each token was written, with its duration: the cursor starts
  at \<open>c\<close> and advances by the duration of every token.
\<close>

fun tokenSpans :: "int \<Rightarrow> token list \<Rightarrow> (int \<times> int) list" where
  "tokenSpans c [] = []"
| "tokenSpans c (t # ts) = (c, tokenDur t) # tokenSpans (c + tokenDur t) ts"

definition measureTotal :: "int \<Rightarrow> (int \<times> int) list \<Rightarrow> int \<Rightarrow> int" where
  \<comment> \<open>The summed duration of the tokens that start in measure \<open>m\<close>.\<close>
  "measureTotal measureSixteenths spans m =
     sum_list (map snd (filter (\<lambda>sd. fst sd div measureSixteenths = m) spans))"

definition withinBar :: "int \<Rightarrow> int \<times> int \<Rightarrow> bool" where
  \<comment> \<open>The token ends at or before the bar line that follows its start.\<close>
  "withinBar measureSixteenths sd \<longleftrightarrow>
     fst sd mod measureSixteenths + snd sd \<le> measureSixteenths"

section \<open>Sessions used in the examples\<close>

text \<open>
  A timeline is evenly spaced when consecutive beat times differ by exactly one beat duration.
  The example session runs at tempo 120 in 4/4 over two measures, with seven beats scheduled
  500 ms apart: the first post-intro beat is at 2000 ms.
\<close>

definition evenlySpaced :: "app_state \<Rightarrow> bool" where
  "evenlySpaced st \<longleftrightarrow>
     (\<forall>i < length (beatTimes st). beatTimes st ! i = beatTimes st ! 0 + of_nat i * beatDurMs st)"

definition exampleSession :: app_state where
  "exampleSession =
     \<lparr>tempo = 120, timeSig = \<lparr>beats = 4, beatValue = 4\<rparr>, measures = 2, latencyMs = 0,
      isPlaying = True, isIntro = False, recordedNotes = [], debugInfo = NoInfo,
      isLatencyTesting = False, sessionNotes = [], activeNotes = [], isRecording = True,
      beatTimes = [0, 500, 1000, 1500, 2000, 2500, 3000]\<rparr>"


definition keyDown :: "int \<Rightarrow> rat \<Rightarrow> midi_signal" where
  \<comment> \<open>The signal that \<open>handleKey\<close> sends for a key of the computer keyboard going down.\<close>
  "keyDown m t = \<lparr>statusByte = 144, rawMidi = m, vel = 100, timeStamp = t, source = Keyboard\<rparr>"

definition keyUp :: "int \<Rightarrow> rat \<Rightarrow> midi_signal" where
  \<comment> \<open>The signal that \<open>handleKey\<close> sends for that key going up.\<close>
  "keyUp m t = \<lparr>statusByte = 128, rawMidi = m, vel = 0, timeStamp = t, source = Keyboard\<rparr>"

section \<open>Runs of a session\<close>

text \<open>
  The configuration that no step of a session changes, the notes a state holds, and the
  initial state of \<open>App\<close> with the actions of two short sessions at its tempo of 100: the
  five beats of the intro and of the first post-intro beat (600 ms apart, the last one at
  2500 ms) arm recording, then keys are pressed and released.
\<close>

definition sameSetup :: "app_state \<Rightarrow> app_state \<Rightarrow> bool" where
  "sameSetup st st' \<longleftrightarrow>
     tempo st' = tempo st \<and> timeSig st' = timeSig st \<and> measures st' = measures st"

definition allNotes :: "app_state \<Rightarrow> RecordedNote set" where
  "allNotes st = set (sessionNotes st) \<union> set (recordedNotes st)"

definition initialApp :: app_state where
  \<comment> \<open>The \<open>useState\<close> and \<open>useRef\<close> defaults of \<open>App\<close>.\<close>
  "initialApp =
     \<lparr>tempo = 100, timeSig = \<lparr>beats = 4, beatValue = 4\<rparr>, measures = 4, latencyMs = 0,
      isPlaying = False, isIntro = False, recordedNotes = [], debugInfo = NoInfo,
      isLatencyTesting = False, sessionNotes = [], activeNotes = [], isRecording = False,
      beatTimes = []\<rparr>"

definition introBeats :: "action list" where
  "introBeats = [BeatScheduled 100, BeatScheduled 700, BeatScheduled 1300, BeatScheduled 1900,
                 BeatScheduled 2500, BeatFired]"

definition exampleActions :: "action list" where
  "exampleActions =
     introBeats @ [Signal (keyDown 60 2500), Signal (keyUp 60 2500), Signal (keyDown 62 2400),
                   Signal (keyDown 64 2500)]"

definition exampleHeld :: app_state where
  "exampleHeld =
     initialApp\<lparr>isPlaying := True, isRecording := True,
       beatTimes := [100, 700, 1300, 1900, 2500],
       recordedNotes := [\<lparr>midi = 60, diffMs = 0, measure = 0, beatIndex = 0,
           sixteenthIndex = 0, durationSixteenths = 1\<rparr>],
       sessionNotes := [\<lparr>midi = 60, diffMs = 0, measure = 0, beatIndex = 0,
           sixteenthIndex = 0, durationSixteenths = 1\<rparr>],
       activeNotes :=
         [(62, \<lparr>startTime = 2400, mIdx = - 1, bIdx = - 1, sIdx = 3, startDiffMs = 50\<rparr>),
          (64, \<lparr>startTime = 2500, mIdx = 0, bIdx = 0, sIdx = 0, startDiffMs = 0\<rparr>)]\<rparr>"

fun isStop :: "action \<Rightarrow> bool" where
  "isStop (Stop now) = True"
| "isStop a = False"

definition calibrationActions :: "action list" where
  "calibrationActions =
     introBeats @ [BeatScheduled 3100, Signal (keyDown 60 2520), Signal (keyUp 60 2600),
                   Signal (keyDown 62 3100), Signal (keyUp 62 3200), Signal (keyDown 64 3110)]"

definition calibrationHeld :: app_state where
  "calibrationHeld =
     initialApp\<lparr>isPlaying := True, isRecording := True, isLatencyTesting := True,
       debugInfo := CalibrationStarting,
       beatTimes := [100, 700, 1300, 1900, 2500, 3100],
       sessionNotes :=
         [\<lparr>midi = 60, diffMs = 20, measure = 0, beatIndex = 0, sixteenthIndex = 0,
            durationSixteenths = 1\<rparr>,
          \<lparr>midi = 62, diffMs = 0, measure = 0, beatIndex = 1, sixteenthIndex = 0,
            durationSixteenths = 1\<rparr>],
       activeNotes :=
         [(64, \<lparr>startTime = 3110, mIdx = 0, bIdx = 1, sIdx = 0, startDiffMs = 10\<rparr>)]\<rparr>"

text \<open>
  A calibration run with two notes, played 20.5 ms and 0.5 ms after their beats, and a session
  with one note played 30 ms after its beat.
\<close>

definition halfMsActions :: "action list" where
  "halfMsActions =
     introBeats @ [BeatScheduled 3100, Signal (keyDown 60 (5041 / 2)), Signal (keyUp 60 2600),
                   Signal (keyDown 62 (6201 / 2)), Signal (keyUp 62 3200)]"

definition halfMsHeld :: app_state where
  "halfMsHeld =
     initialApp\<lparr>isPlaying := True, isRecording := True, isLatencyTesting := True,
       debugInfo := CalibrationStarting,
       beatTimes := [100, 700, 1300, 1900, 2500, 3100],
       sessionNotes :=
         [\<lparr>midi = 60, diffMs = 41 / 2, measure = 0, beatIndex = 0, sixteenthIndex = 0,
            durationSixteenths = 1\<rparr>,
          \<lparr>midi = 62, diffMs = 1 / 2, measure = 0, beatIndex = 1, sixteenthIndex = 0,
            durationSixteenths = 1\<rparr>]\<rparr>"

definition lateNoteActions :: "action list" where
  "lateNoteActions = introBeats @ [Signal (keyDown 60 2530), Signal (keyUp 60 2600)]"

definition lateNotePlaying :: app_state where
  "lateNotePlaying =
     initialApp\<lparr>isPlaying := True, isRecording := True,
       beatTimes := [100, 700, 1300, 1900, 2500],
       recordedNotes := [\<lparr>midi = 60, diffMs = 30, measure = 0, beatIndex = 0,
           sixteenthIndex = 0, durationSixteenths = 1\<rparr>],
       sessionNotes := [\<lparr>midi = 60, diffMs = 30, measure = 0, beatIndex = 0,
           sixteenthIndex = 0, durationSixteenths = 1\<rparr>]\<rparr>"

definition exampleNotes :: "RecordedNote list" where
  "exampleNotes =
     [\<lparr>midi = 60, diffMs = 0, measure = 0, beatIndex = 0, sixteenthIndex = 0,
        durationSixteenths = 4\<rparr>,
      \<lparr>midi = 67, diffMs = 3, measure = 0, beatIndex = 3, sixteenthIndex = 2,
        durationSixteenths = 8\<rparr>,
      \<lparr>midi = 64, diffMs = 12, measure = 0, beatIndex = 0, sixteenthIndex = 0,
        durationSixteenths = 6\<rparr>,
      \<lparr>midi = 62, diffMs = - 5, measure = 0, beatIndex = 0, sixteenthIndex = 3,
        durationSixteenths = 1\<rparr>]"

section \<open>Event classification ignores the channel\<close>

lemma and_F0_eq: "(s::int) AND 0xF0 = 16 * (s div 16 mod 16)"
proof -
  have m: "(0xF0::int) = push_bit 4 (mask 4)"
    by (simp add: mask_eq_exp_minus_1)
  have "s AND push_bit 4 (mask 4) = push_bit 4 (take_bit 4 (drop_bit 4 s))"
    by (auto simp: bit_eq_iff bit_simps)
  then show ?thesis
    unfolding m by (simp add: push_bit_eq_mult take_bit_eq_mod drop_bit_eq_div)
qed

lemma command_of_nibble: "0 \<le> s \<Longrightarrow> s < 256 \<Longrightarrow> command_of s = 16 * (s div 16)"
  by (simp add: command_of_def and_F0_eq)

text \<open>
  Claim C7. For a status byte \<open>s\<close> below \<open>0xF0\<close> and a velocity \<open>v\<close>, the event is a note-on
  exactly when \<open>s & 0xF0\<close> is \<open>0x90\<close> and \<open>v > 0\<close>, and a note-off exactly when \<open>s & 0xF0\<close> is
  \<open>0x80\<close>, or is \<open>0x90\<close> with \<open>v = 0\<close>. Two status bytes with the same upper nibble, which
  differ in the channel bits only, are classified alike.
\<close>

theorem classification_ignores_channel:
  assumes "0 \<le> s" "s < 0xF0"
  shows "(isNoteOn s v \<longleftrightarrow> s AND 0xF0 = 0x90 \<and> v > 0) \<and>
         (isNoteOff s v \<longleftrightarrow> s AND 0xF0 = 0x80 \<or> (s AND 0xF0 = 0x90 \<and> v = 0)) \<and>
         (\<forall>s'. 0 \<le> s' \<and> s' < 0xF0 \<and> s' div 16 = s div 16 \<longrightarrow>
              isNoteOn s' v = isNoteOn s v \<and> isNoteOff s' v = isNoteOff s v)"
proof (intro conjI allI impI)
  show "isNoteOn s v \<longleftrightarrow> s AND 0xF0 = 0x90 \<and> v > 0"
    by (simp add: isNoteOn_def command_of_def)
  show "isNoteOff s v \<longleftrightarrow> s AND 0xF0 = 0x80 \<or> (s AND 0xF0 = 0x90 \<and> v = 0)"
    by (simp add: isNoteOff_def command_of_def)
next
  fix s' :: int
  assume h: "0 \<le> s' \<and> s' < 0xF0 \<and> s' div 16 = s div 16"
  then have "command_of s' = command_of s"
    using assms by (simp add: command_of_nibble)
  then show "isNoteOn s' v = isNoteOn s v" "isNoteOff s' v = isNoteOff s v"
    by (simp_all add: isNoteOn_def isNoteOff_def)
qed

theorem classification_ignores_channel_witness:
  "(0::int) \<le> 0x93 \<and> (0x93::int) < 0xF0 \<and>
   isNoteOn 0x93 100 \<and> \<not> isNoteOff 0x93 100 \<and> isNoteOff 0x93 0 \<and> isNoteOff 0x85 64 \<and>
   isNoteOn 0x9F 100 = isNoteOn 0x93 100 \<and> isNoteOff 0x9F 100 = isNoteOff 0x93 100"
  using classification_ignores_channel [of "0x93" 100]
    classification_ignores_channel [of "0x93" 0]
    classification_ignores_channel [of "0x85" 64]
  by simp

section \<open>The normalisation loops and the beat search\<close>

lemma carryLoop_closed:
  assumes "0 < spb"
  shows "carryLoop spb f b = Some (if 0 \<le> f then (f mod spb, b + f div spb) else (f, b))"
proof (induction "nat f" arbitrary: f b rule: less_induct)
  case less
  show ?case
  proof (cases "spb \<le> f")
    case True
    then have lt: "nat (f - spb) < nat f" using assms by linarith
    have m: "(f - spb) mod spb = f mod spb" by simp
    have d: "(f - spb) div spb = f div spb - 1"
      using div_add_self2 [of spb "f - spb"] assms by simp
    have "carryLoop spb f b = carryLoop spb (f - spb) (b + 1)"
      using True by (subst carryLoop.simps) simp
    also have "\<dots> = Some ((f - spb) mod spb, b + 1 + (f - spb) div spb)"
      using less [OF lt, of "b + 1"] True by simp
    finally show ?thesis using True assms m d by simp
  next
    case False
    then have "carryLoop spb f b = Some (f, b)"
      by (subst carryLoop.simps) simp
    then show ?thesis using False assms by (simp add: div_pos_pos_trivial)
  qed
qed

lemma borrowLoop_closed:
  assumes "0 < spb"
  shows "borrowLoop spb f b = Some (if f < 0 then (f mod spb, b + f div spb) else (f, b))"
proof (induction "nat (- f)" arbitrary: f b rule: less_induct)
  case less
  show ?case
  proof (cases "f < 0")
    case True
    have m: "(f + spb) mod spb = f mod spb" by simp
    have d: "(f + spb) div spb = f div spb + 1" using assms by simp
    have "borrowLoop spb f b = borrowLoop spb (f + spb) (b - 1)"
      using True by (subst borrowLoop.simps) simp
    also have "\<dots> = Some (f mod spb, b + f div spb)"
    proof (cases "f + spb < 0")
      case True
      then have lt: "nat (- (f + spb)) < nat (- f)" using assms by linarith
      show ?thesis using less [OF lt, of "b - 1"] True m d by simp
    next
      case False
      then have r: "0 \<le> f + spb" "f + spb < spb" using True by simp_all
      have "f mod spb = f + spb" using r m by (metis mod_pos_pos_trivial)
      moreover have "f div spb = - 1" using r d by (metis add.commute add_cancel_left_left div_pos_pos_trivial minus_add_cancel)
      moreover have "borrowLoop spb (f + spb) (b - 1) = Some (f + spb, b - 1)"
        using False by (subst borrowLoop.simps) simp
      ultimately show ?thesis by simp
    qed
    finally show ?thesis using True by simp
  next
    case False
    then show ?thesis by (subst borrowLoop.simps) simp
  qed
qed

lemma normalizeGrid_closed:
  assumes "0 < spb"
  shows "normalizeGrid spb f b = Some (f mod spb, b + f div spb)"
proof (cases "0 \<le> f")
  case True
  then show ?thesis
    using assms by (simp add: normalizeGrid_def carryLoop_closed borrowLoop_closed)
next
  case False
  then show ?thesis
    using assms by (simp add: normalizeGrid_def carryLoop_closed borrowLoop_closed)
qed

lemma findBestBeat_acc:
  assumes "0 \<le> bts"
  shows "let acc = foldl (bestBeat_step bts t) (- 1, None) (enumerate 0 bt) in
         (if int (length bt) \<le> bts then acc = (- 1, None)
          else 0 \<le> fst acc \<and> fst acc + bts < int (length bt) \<and> snd acc \<noteq> None)"
proof (induction bt rule: rev_induct)
  case Nil
  then show ?case using assms by simp
next
  case (snoc x xs)
  then show ?case
    using assms
    by (auto simp: enumerate_append_eq bestBeat_step_def Let_def split: option.splits if_splits)
qed

lemma findBestBeat_none: "0 \<le> bts \<Longrightarrow> int (length bt) \<le> bts \<Longrightarrow> findBestBeat bts t bt = - 1"
  using findBestBeat_acc [of bts t bt] by (simp add: findBestBeat_def Let_def)

lemma findBestBeat_some:
  "0 \<le> bts \<Longrightarrow> bts < int (length bt) \<Longrightarrow>
     0 \<le> findBestBeat bts t bt \<and> nat (findBestBeat bts t bt + bts) < length bt"
  using findBestBeat_acc [of bts t bt] by (auto simp: findBestBeat_def Let_def nat_less_iff)

text \<open>
  The beat that the search returns is a nearest one among the post-intro beats of the
  timeline, and strictly nearer than every post-intro beat before it. A post-intro beat with
  that property is the one returned.
\<close>

lemma findBestBeat_acc_nearest:
  assumes "0 \<le> bts"
  shows "let acc = foldl (bestBeat_step bts t) (- 1, None) (enumerate 0 bt) in
         (if int (length bt) \<le> bts then acc = (- 1, None)
          else 0 \<le> fst acc \<and> fst acc + bts < int (length bt) \<and>
               snd acc = Some \<bar>bt ! nat (fst acc + bts) - t\<bar> \<and>
               (\<forall>i < length bt. bts \<le> int i \<longrightarrow>
                  \<bar>bt ! nat (fst acc + bts) - t\<bar> \<le> \<bar>bt ! i - t\<bar> \<and>
                  (int i < fst acc + bts \<longrightarrow> \<bar>bt ! nat (fst acc + bts) - t\<bar> < \<bar>bt ! i - t\<bar>)))"
proof (induction bt rule: rev_induct)
  case Nil
  then show ?case using assms by simp
next
  case (snoc x xs)
  define acc where "acc = foldl (bestBeat_step bts t) (- 1, None) (enumerate 0 xs)"
  define acc' where "acc' = bestBeat_step bts t acc (length xs, x)"
  have f: "foldl (bestBeat_step bts t) (- 1, None) (enumerate 0 (xs @ [x])) = acc'"
    by (simp add: enumerate_append_eq acc_def acc'_def)
  have ih: "if int (length xs) \<le> bts then acc = (- 1, None)
          else 0 \<le> fst acc \<and> fst acc + bts < int (length xs) \<and>
               snd acc = Some \<bar>xs ! nat (fst acc + bts) - t\<bar> \<and>
               (\<forall>i < length xs. bts \<le> int i \<longrightarrow>
                  \<bar>xs ! nat (fst acc + bts) - t\<bar> \<le> \<bar>xs ! i - t\<bar> \<and>
                  (int i < fst acc + bts \<longrightarrow> \<bar>xs ! nat (fst acc + bts) - t\<bar> < \<bar>xs ! i - t\<bar>))"
    using snoc by (simp add: acc_def Let_def)
  consider (a) "int (length xs) < bts" | (b) "int (length xs) = bts" | (c) "bts < int (length xs)"
    by linarith
  then have "if int (length (xs @ [x])) \<le> bts then acc' = (- 1, None)
          else 0 \<le> fst acc' \<and> fst acc' + bts < int (length (xs @ [x])) \<and>
               snd acc' = Some \<bar>(xs @ [x]) ! nat (fst acc' + bts) - t\<bar> \<and>
               (\<forall>i < length (xs @ [x]). bts \<le> int i \<longrightarrow>
                  \<bar>(xs @ [x]) ! nat (fst acc' + bts) - t\<bar> \<le> \<bar>(xs @ [x]) ! i - t\<bar> \<and>
                  (int i < fst acc' + bts \<longrightarrow>
                     \<bar>(xs @ [x]) ! nat (fst acc' + bts) - t\<bar> < \<bar>(xs @ [x]) ! i - t\<bar>))"
  proof cases
    case a
    then show ?thesis using ih by (simp add: acc'_def bestBeat_step_def)
  next
    case b
    then have acc: "acc = (- 1, None)" using ih by simp
    have acc': "acc' = (0, Some \<bar>x - t\<bar>)"
      using b by (simp add: acc'_def acc bestBeat_step_def)
    have n: "nat bts = length xs" using b by simp
    show ?thesis
      using b by (auto simp: acc' n nth_append)
  next
    case c
    define j where "j = nat (fst acc + bts)"
    have j: "j < length xs" "0 \<le> fst acc" "int j = fst acc + bts"
      using c ih assms by (auto simp: j_def nat_less_iff)
    have m: "snd acc = Some \<bar>xs ! j - t\<bar>" using c ih by (simp add: j_def)
    have all: "\<And>i. i < length xs \<Longrightarrow> bts \<le> int i \<Longrightarrow> \<bar>xs ! j - t\<bar> \<le> \<bar>xs ! i - t\<bar>"
      "\<And>i. i < length xs \<Longrightarrow> bts \<le> int i \<Longrightarrow> i < j \<Longrightarrow> \<bar>xs ! j - t\<bar> < \<bar>xs ! i - t\<bar>"
      using c ih j(3) by (simp_all add: j_def [symmetric])
    show ?thesis
    proof (cases "\<bar>x - t\<bar> < \<bar>xs ! j - t\<bar>")
      case True
      then have acc': "acc' = (int (length xs) - bts, Some \<bar>x - t\<bar>)"
        using c m by (simp add: acc'_def bestBeat_step_def)
      have "\<And>i. i < length xs \<Longrightarrow> bts \<le> int i \<Longrightarrow> \<bar>x - t\<bar> < \<bar>xs ! i - t\<bar>"
        using all(1) True by fastforce
      then show ?thesis
        using c by (auto simp: acc' nth_append less_Suc_eq intro: less_imp_le)
    next
      case False
      then have acc': "acc' = acc"
        using c m by (simp add: acc'_def bestBeat_step_def)
      have e: "nat (fst acc + bts) = j" by (simp add: j_def)
      show ?thesis
        using c j all m False by (auto simp: acc' e nth_append less_Suc_eq)
    qed
  qed
  then show ?case by (simp only: f Let_def)
qed

lemma findBestBeat_nearest:
  assumes "0 \<le> bts" "bts < int (length bt)" "i < length bt" "bts \<le> int i"
  shows "\<bar>bt ! nat (findBestBeat bts t bt + bts) - t\<bar> \<le> \<bar>bt ! i - t\<bar>"
    and "int i < findBestBeat bts t bt + bts \<Longrightarrow>
           \<bar>bt ! nat (findBestBeat bts t bt + bts) - t\<bar> < \<bar>bt ! i - t\<bar>"
  using findBestBeat_acc_nearest [OF assms(1), of t bt] assms(2-)
  by (simp_all add: findBestBeat_def Let_def)

lemma findBestBeat_unique:
  assumes bts: "0 \<le> bts" and k: "0 \<le> k" "nat (k + bts) < length bt"
    and le: "\<forall>i < length bt. bts \<le> int i \<longrightarrow> \<bar>bt ! nat (k + bts) - t\<bar> \<le> \<bar>bt ! i - t\<bar>"
    and lt: "\<forall>i < length bt. bts \<le> int i \<longrightarrow> int i < k + bts \<longrightarrow>
               \<bar>bt ! nat (k + bts) - t\<bar> < \<bar>bt ! i - t\<bar>"
  shows "findBestBeat bts t bt = k"
proof -
  define j where "j = findBestBeat bts t bt"
  have len: "bts < int (length bt)" using k bts by linarith
  have j: "0 \<le> j" "nat (j + bts) < length bt"
    using findBestBeat_some [OF bts len, of t] by (simp_all add: j_def)
  have jk: "\<bar>bt ! nat (j + bts) - t\<bar> \<le> \<bar>bt ! nat (k + bts) - t\<bar>"
    using findBestBeat_nearest(1) [OF bts len k(2), of t] k(1) bts by (simp add: j_def)
  have kj: "\<bar>bt ! nat (k + bts) - t\<bar> \<le> \<bar>bt ! nat (j + bts) - t\<bar>"
    using le j bts by simp
  have "\<not> j < k"
  proof
    assume "j < k"
    then have "\<bar>bt ! nat (k + bts) - t\<bar> < \<bar>bt ! nat (j + bts) - t\<bar>"
      using lt j bts by simp
    then show False using jk by simp
  qed
  moreover have "\<not> k < j"
  proof
    assume "k < j"
    then have "\<bar>bt ! nat (j + bts) - t\<bar> < \<bar>bt ! nat (k + bts) - t\<bar>"
      using findBestBeat_nearest(2) [OF bts len k(2), of t] k(1) bts by (simp add: j_def)
    then show False using kj by simp
  qed
  ultimately show ?thesis by (simp add: j_def)
qed

section \<open>The configuration and the note-on handler\<close>

lemma valid_spb: "valid_config st \<Longrightarrow> sixteenthsPerBeat st \<in> {2, 4, 8}"
  by (auto simp: valid_config_def sixteenthsPerBeat_def)

lemma valid_spb_pos: "valid_config st \<Longrightarrow> 0 < sixteenthsPerBeat st"
  using valid_spb [of st] by auto

lemma valid_beats_pos: "valid_config st \<Longrightarrow> 0 < beats (timeSig st)"
  by (auto simp: valid_config_def)

lemma valid_beatDur_pos: "valid_config st \<Longrightarrow> 0 < beatDurMs st"
  by (simp add: valid_config_def beatDurMs_def)

lemma valid_dur_pos: "valid_config st \<Longrightarrow> 0 < sixteenthDurMs st"
  using valid_beatDur_pos [of st] valid_spb_pos [of st] by (simp add: sixteenthDurMs_def)

lemma beatDur_sixteenths:
  "valid_config st \<Longrightarrow> beatDurMs st = of_int (sixteenthsPerBeat st) * sixteenthDurMs st"
  using valid_spb_pos [of st] by (simp add: sixteenthDurMs_def)

lemma js_round_of_int: "js_round (of_int n) = n"
  by (simp add: js_round_def) linarith

lemma js_round_near:
  assumes "\<bar>x - of_int n\<bar> < 1 / 2"
  shows "js_round x = n"
proof -
  have "of_int n \<le> x + 1 / 2" "x + 1 / 2 < of_int n + 1"
    using assms by linarith+
  then show ?thesis
    unfolding js_round_def by (rule floor_unique)
qed

lemma js_rem_nonneg: "0 \<le> a \<Longrightarrow> 0 < b \<Longrightarrow> js_rem a b = a mod b"
  by (cases "a = 0") (simp_all add: js_rem_def)

lemma recordNoteOn_closed:
  fixes st :: app_state and t :: rat and m :: int
  assumes v: "valid_config st" and len: "beats (timeSig st) < int (length (beatTimes st))"
  defines "j \<equiv> findBestBeat (beats (timeSig st)) t (beatTimes st)"
  defines "rawOffset \<equiv> t - beatTimes st ! nat (j + beats (timeSig st))"
  defines "raw \<equiv> js_round (rawOffset / sixteenthDurMs st)"
  shows "recordNoteOn st m t =
     Some (st\<lparr>activeNotes := map_set m
        \<lparr>startTime = t,
         mIdx = (j + raw div sixteenthsPerBeat st) div beats (timeSig st),
         bIdx = js_rem (j + raw div sixteenthsPerBeat st) (beats (timeSig st)),
         sIdx = raw mod sixteenthsPerBeat st,
         startDiffMs = rawOffset - of_int raw * sixteenthDurMs st\<rparr> (activeNotes st)\<rparr>)"
proof -
  have "0 \<le> j"
    using findBestBeat_some [of "beats (timeSig st)" "beatTimes st" t] valid_beats_pos [OF v] len
    by (simp add: j_def)
  then show ?thesis
    unfolding recordNoteOn_def Let_def j_def [symmetric] rawOffset_def [symmetric] raw_def [symmetric]
    by (simp add: normalizeGrid_closed [OF valid_spb_pos [OF v]])
qed

lemma recordNoteOn_no_beat:
  assumes "0 \<le> beats (timeSig st)" "int (length (beatTimes st)) \<le> beats (timeSig st)"
  shows "recordNoteOn st m t = Some st"
  using findBestBeat_none [OF assms, of t] by (simp add: recordNoteOn_def)

lemma isNoteOn_not_off: "isNoteOn s v \<Longrightarrow> \<not> isNoteOff s v"
  by (auto simp: isNoteOn_def isNoteOff_def)

lemma onMidiSignal_note_on:
  assumes "isRecording st" "isNoteOn (statusByte sg) (vel sg)"
  shows "onMidiSignal st sg = recordNoteOn st (pitchOf sg) (timeStamp sg - of_int (latencyMs st))"
  using assms isNoteOn_not_off [OF assms(2)]
  by (simp add: onMidiSignal_def Let_def split: option.split)

lemma grid_position_div:
  fixes m b n :: int
  assumes "0 \<le> b" "b < n"
  shows "(m * n + b) div n = m" "(m * n + b) mod n = b"
  using assms by (simp_all add: div_pos_pos_trivial)

text \<open>
  A note-on at \<open>s\<close> subdivisions from the post-intro beat \<open>k\<close> (\<open>s\<close> of either sign), when the
  selected beat is less than half a subdivision off the grid of beat \<open>k\<close>.
\<close>

lemma quantize_near_grid:
  fixes st :: app_state and t :: rat and k s :: int
  assumes v: "valid_config st"
    and k: "0 \<le> k" "nat (k + beats (timeSig st)) < length (beatTimes st)"
    and at: "t = beatTimes st ! nat (k + beats (timeSig st)) + of_int s * sixteenthDurMs st"
    and near: "\<bar>targetOffGrid st t k\<bar> < sixteenthDurMs st / 2"
  shows "recordNoteOn st p t =
     Some (st\<lparr>activeNotes := map_set p
        \<lparr>startTime = t,
         mIdx = (k + s div sixteenthsPerBeat st) div beats (timeSig st),
         bIdx = js_rem (k + s div sixteenthsPerBeat st) (beats (timeSig st)),
         sIdx = s mod sixteenthsPerBeat st,
         startDiffMs = - targetOffGrid st t k\<rparr> (activeNotes st)\<rparr>)"
    and "normalizedBeatIdx st t = Some (k + s div sixteenthsPerBeat st)"
proof -
  define spb where "spb = sixteenthsPerBeat st"
  define dur where "dur = sixteenthDurMs st"
  define j where "j = findBestBeat (beats (timeSig st)) t (beatTimes st)"
  define rawOffset where "rawOffset = t - beatTimes st ! nat (j + beats (timeSig st))"
  define raw where "raw = js_round (rawOffset / dur)"
  define off where "off = targetOffGrid st t k"
  have spb: "0 < spb" using valid_spb_pos [OF v] by (simp add: spb_def)
  have dur: "0 < dur" using valid_dur_pos [OF v] by (simp add: dur_def)
  have bpos: "0 < beats (timeSig st)" by (rule valid_beats_pos [OF v])
  have len: "beats (timeSig st) < int (length (beatTimes st))" using k bpos by linarith
  have "rawOffset = of_int s * dur - of_int (j - k) * (of_int spb * dur) - off"
    using at beatDur_sixteenths [OF v]
    by (simp add: targetOffGrid_def Let_def rawOffset_def j_def dur_def spb_def off_def)
  then have ro: "rawOffset = of_int (s - (j - k) * spb) * dur - off"
    by (simp add: algebra_simps)
  have "rawOffset / dur = of_int (s - (j - k) * spb) * dur / dur - off / dur"
    unfolding ro by (rule diff_divide_distrib)
  then have "rawOffset / dur - of_int (s - (j - k) * spb) = - (off / dur)"
    using dur by simp
  moreover have "\<bar>off / dur\<bar> < 1 / 2"
    using near dur by (simp add: off_def dur_def field_simps abs_less_iff)
  ultimately have "\<bar>rawOffset / dur - of_int (s - (j - k) * spb)\<bar> < 1 / 2"
    by simp
  then have raw: "raw = s - (j - k) * spb"
    unfolding raw_def by (rule js_round_near)
  have r2: "raw = (s div spb + k - j) * spb + s mod spb" 
    by (simp add: raw algebra_simps)
  have rm: "raw mod spb = s mod spb" 
    unfolding r2 using spb grid_position_div(2) [of "s mod spb" spb "s div spb + k - j"] by simp
  have rd: "raw div spb = s div spb + k - j"
    unfolding r2 using spb grid_position_div(1) [of "s mod spb" spb "s div spb + k - j"] by simp
  have rd2: "j + raw div spb = k + s div spb" using rd by simp
  have dev: "rawOffset - of_int raw * dur = - off" by (simp add: ro raw)
  show "recordNoteOn st p t =
     Some (st\<lparr>activeNotes := map_set p
        \<lparr>startTime = t,
         mIdx = (k + s div sixteenthsPerBeat st) div beats (timeSig st),
         bIdx = js_rem (k + s div sixteenthsPerBeat st) (beats (timeSig st)),
         sIdx = s mod sixteenthsPerBeat st,
         startDiffMs = - targetOffGrid st t k\<rparr> (activeNotes st)\<rparr>)"
    using recordNoteOn_closed [OF v len, of p t] rm rd2 dev
    by (simp add: j_def [symmetric] rawOffset_def [symmetric] raw_def [symmetric]
        dur_def [symmetric] spb_def [symmetric] off_def [symmetric])
  show "normalizedBeatIdx st t = Some (k + s div sixteenthsPerBeat st)"
    unfolding normalizedBeatIdx_def Let_def j_def [symmetric] rawOffset_def [symmetric]
      dur_def [symmetric] raw_def [symmetric] spb_def [symmetric]
    using rd2 by (simp add: normalizeGrid_closed [OF spb])
qed

lemma floor_rat_numeral:
  "\<lfloor>numeral a / numeral b :: rat\<rfloor> = numeral a div numeral b"
  "\<lfloor>1 / numeral b :: rat\<rfloor> = 1 div numeral b"
  "\<lfloor>- (numeral a / numeral b) :: rat\<rfloor> = - numeral a div numeral b"
  "\<lfloor>- (1 / numeral b) :: rat\<rfloor> = - 1 div numeral b"
  using floor_divide_of_int_eq [of "numeral a" "numeral b", where ?'a = rat]
    floor_divide_of_int_eq [of 1 "numeral b", where ?'a = rat]
    floor_divide_of_int_eq [of "- numeral a" "numeral b", where ?'a = rat]
    floor_divide_of_int_eq [of "- 1" "numeral b", where ?'a = rat]
  by simp_all

lemmas run_eval = session_step_def onStart_def onMidiSignal_def recordNoteOn_def
  resolveNoteOff_def Let_def findBestBeat_def bestBeat_step_def pitchOf_def keyDown_def
  keyUp_def isNoteOn_def isNoteOff_def command_of_def sixteenthsPerBeat_def sixteenthDurMs_def
  beatDurMs_def normalizeGrid_closed js_round_def js_rem_def inSession_def newNote_def
  resolveDuration_def map_get_def map_delete_def floor_rat_numeral

section \<open>Quantization on the grid\<close>

lemma targetOffGrid_selected:
  "findBestBeat (beats (timeSig st)) t (beatTimes st) = k \<Longrightarrow> targetOffGrid st t k = 0"
  by (simp add: targetOffGrid_def)

lemma selected_beat_in_timeline:
  assumes v: "valid_config st" and k: "0 \<le> k" "nat (k + beats (timeSig st)) < length (beatTimes st)"
  shows "0 \<le> findBestBeat (beats (timeSig st)) t (beatTimes st)"
    and "nat (findBestBeat (beats (timeSig st)) t (beatTimes st) + beats (timeSig st))
           < length (beatTimes st)"
proof -
  have bpos: "0 < beats (timeSig st)" by (rule valid_beats_pos [OF v])
  have len: "beats (timeSig st) < int (length (beatTimes st))" using k bpos by linarith
  show "0 \<le> findBestBeat (beats (timeSig st)) t (beatTimes st)"
    and "nat (findBestBeat (beats (timeSig st)) t (beatTimes st) + beats (timeSig st))
           < length (beatTimes st)"
    using findBestBeat_some [of "beats (timeSig st)" "beatTimes st" t] bpos len by simp_all
qed


lemma targetOffGrid_evenly_spaced:
  assumes v: "valid_config st" and e: "evenlySpaced st"
    and k: "0 \<le> k" "nat (k + beats (timeSig st)) < length (beatTimes st)"
  shows "targetOffGrid st t k = 0"
proof -
  define j where "j = findBestBeat (beats (timeSig st)) t (beatTimes st)"
  define bts where "bts = beats (timeSig st)"
  have bpos: "0 < bts" using valid_beats_pos [OF v] by (simp add: bts_def)
  have j: "0 \<le> j" "nat (j + bts) < length (beatTimes st)"
    using selected_beat_in_timeline [OF v k, of t] by (simp_all add: j_def bts_def)
  have nj: "of_nat (nat (j + bts)) = (of_int (j + bts) :: rat)" using j bpos by simp
  have nk: "of_nat (nat (k + bts)) = (of_int (k + bts) :: rat)" using k bpos by simp
  have a: "beatTimes st ! nat (j + bts) = beatTimes st ! 0 + of_int (j + bts) * beatDurMs st"
    using e j(2) nj unfolding evenlySpaced_def by metis
  have b: "beatTimes st ! nat (k + bts) = beatTimes st ! 0 + of_int (k + bts) * beatDurMs st"
    using e k(2) nk unfolding evenlySpaced_def bts_def by metis
  have "targetOffGrid st t k =
          beatTimes st ! nat (j + bts) -
          (beatTimes st ! nat (k + bts) + of_int (j - k) * beatDurMs st)"
    by (simp add: targetOffGrid_def Let_def j_def bts_def)
  then show ?thesis
    unfolding a b by (simp add: algebra_simps)
qed

text \<open>
  The stored deviation in exact arithmetic. Take a measure, beat and subdivision within range,
  a timeline that holds the beat at that measure and beat, and a note-on whose compensated
  timestamp is that beat's time plus \<open>subdivision\<close> subdivision durations. When the beat that
  the search targets lies on the grid of that beat, the entry has deviation 0. This is so when
  that beat is the nearest post-intro beat (the earliest one on a tie), and on an evenly spaced
  timeline.
\<close>

lemma grid_instant_on_target_grid:
  fixes st :: app_state and sg :: midi_signal and m b s :: int
  assumes v: "valid_config st"
    and rec: "isRecording st" and on: "isNoteOn (statusByte sg) (vel sg)"
    and m: "0 \<le> m" "m < measures st"
    and b: "0 \<le> b" "b < beats (timeSig st)"
    and s: "0 \<le> s" "s < sixteenthsPerBeat st"
    and gen: "nat (m * beats (timeSig st) + b + beats (timeSig st)) < length (beatTimes st)"
    and at: "timeStamp sg - of_int (latencyMs st) =
               beatTimes st ! nat (m * beats (timeSig st) + b + beats (timeSig st)) +
               of_int s * sixteenthDurMs st"
    and tgt: "targetOffGrid st (timeStamp sg - of_int (latencyMs st))
                (m * beats (timeSig st) + b) = 0"
  shows "onMidiSignal st sg =
           Some (st\<lparr>activeNotes := map_set (pitchOf sg)
              \<lparr>startTime = timeStamp sg - of_int (latencyMs st),
               mIdx = m, bIdx = b, sIdx = s, startDiffMs = 0\<rparr> (activeNotes st)\<rparr>)"
proof -
  define k where "k = m * beats (timeSig st) + b"
  define t where "t = timeStamp sg - of_int (latencyMs st)"
  have bpos: "0 < beats (timeSig st)" by (rule valid_beats_pos [OF v])
  have k0: "0 \<le> k" using m b bpos by (simp add: k_def)
  have near: "\<bar>targetOffGrid st t k\<bar> < sixteenthDurMs st / 2"
    using tgt valid_dur_pos [OF v] by (simp add: t_def k_def)
  have sd: "s div sixteenthsPerBeat st = 0" "s mod sixteenthsPerBeat st = s"
    using s by (simp_all add: div_pos_pos_trivial)
  have kd: "k div beats (timeSig st) = m" "k mod beats (timeSig st) = b"
    unfolding k_def using grid_position_div [OF b, of m] by simp_all
  have rem: "js_rem k (beats (timeSig st)) = b"
    using js_rem_nonneg [OF k0 bpos] kd by simp
  have "recordNoteOn st (pitchOf sg) t =
     Some (st\<lparr>activeNotes := map_set (pitchOf sg)
        \<lparr>startTime = t, mIdx = m, bIdx = b, sIdx = s, startDiffMs = 0\<rparr> (activeNotes st)\<rparr>)"
    using quantize_near_grid(1) [OF v k0 _ _ near, of s "pitchOf sg"] gen at tgt sd kd rem
    by (simp add: k_def [symmetric] t_def [symmetric])
  then show ?thesis
    using onMidiSignal_note_on [OF rec on] by (simp add: t_def)
qed

lemma grid_instant_nearest:
  fixes st :: app_state and sg :: midi_signal and m b s :: int
  assumes v: "valid_config st"
    and rec: "isRecording st" and on: "isNoteOn (statusByte sg) (vel sg)"
    and m: "0 \<le> m" "m < measures st"
    and b: "0 \<le> b" "b < beats (timeSig st)"
    and s: "0 \<le> s" "s < sixteenthsPerBeat st"
    and gen: "nat (m * beats (timeSig st) + b + beats (timeSig st)) < length (beatTimes st)"
    and at: "timeStamp sg - of_int (latencyMs st) =
               beatTimes st ! nat (m * beats (timeSig st) + b + beats (timeSig st)) +
               of_int s * sixteenthDurMs st"
    and le: "\<forall>i < length (beatTimes st). beats (timeSig st) \<le> int i \<longrightarrow>
               \<bar>beatTimes st ! nat (m * beats (timeSig st) + b + beats (timeSig st)) -
                 (timeStamp sg - of_int (latencyMs st))\<bar>
               \<le> \<bar>beatTimes st ! i - (timeStamp sg - of_int (latencyMs st))\<bar>"
    and lt: "\<forall>i < length (beatTimes st). beats (timeSig st) \<le> int i \<longrightarrow>
               int i < m * beats (timeSig st) + b + beats (timeSig st) \<longrightarrow>
               \<bar>beatTimes st ! nat (m * beats (timeSig st) + b + beats (timeSig st)) -
                 (timeStamp sg - of_int (latencyMs st))\<bar>
               < \<bar>beatTimes st ! i - (timeStamp sg - of_int (latencyMs st))\<bar>"
  shows "findBestBeat (beats (timeSig st)) (timeStamp sg - of_int (latencyMs st)) (beatTimes st) =
           m * beats (timeSig st) + b"
    and "onMidiSignal st sg =
           Some (st\<lparr>activeNotes := map_set (pitchOf sg)
              \<lparr>startTime = timeStamp sg - of_int (latencyMs st),
               mIdx = m, bIdx = b, sIdx = s, startDiffMs = 0\<rparr> (activeNotes st)\<rparr>)"
proof -
  have bpos: "0 < beats (timeSig st)" by (rule valid_beats_pos [OF v])
  have k0: "0 \<le> m * beats (timeSig st) + b" using m b bpos by simp
  show f: "findBestBeat (beats (timeSig st)) (timeStamp sg - of_int (latencyMs st)) (beatTimes st) =
           m * beats (timeSig st) + b"
    using findBestBeat_unique [OF _ k0 gen le lt] bpos by simp
  show "onMidiSignal st sg =
           Some (st\<lparr>activeNotes := map_set (pitchOf sg)
              \<lparr>startTime = timeStamp sg - of_int (latencyMs st),
               mIdx = m, bIdx = b, sIdx = s, startDiffMs = 0\<rparr> (activeNotes st)\<rparr>)"
    by (rule grid_instant_on_target_grid [OF v rec on m b s gen at targetOffGrid_selected [OF f]])
qed

lemma grid_instant_evenly_spaced:
  fixes st :: app_state and sg :: midi_signal and m b s :: int
  assumes v: "valid_config st"
    and rec: "isRecording st" and on: "isNoteOn (statusByte sg) (vel sg)"
    and m: "0 \<le> m" "m < measures st"
    and b: "0 \<le> b" "b < beats (timeSig st)"
    and s: "0 \<le> s" "s < sixteenthsPerBeat st"
    and gen: "nat (m * beats (timeSig st) + b + beats (timeSig st)) < length (beatTimes st)"
    and at: "timeStamp sg - of_int (latencyMs st) =
               beatTimes st ! nat (m * beats (timeSig st) + b + beats (timeSig st)) +
               of_int s * sixteenthDurMs st"
    and e: "evenlySpaced st"
  shows "onMidiSignal st sg =
           Some (st\<lparr>activeNotes := map_set (pitchOf sg)
              \<lparr>startTime = timeStamp sg - of_int (latencyMs st),
               mIdx = m, bIdx = b, sIdx = s, startDiffMs = 0\<rparr> (activeNotes st)\<rparr>)"
proof -
  have bpos: "0 < beats (timeSig st)" by (rule valid_beats_pos [OF v])
  have k0: "0 \<le> m * beats (timeSig st) + b" using m b bpos by simp
  show ?thesis
    by (rule grid_instant_on_target_grid [OF v rec on m b s gen at targetOffGrid_evenly_spaced [OF v e k0 gen]])
qed


lemma example_config:
  "valid_config exampleSession" "sixteenthsPerBeat exampleSession = 4"
  "beatDurMs exampleSession = 500" "sixteenthDurMs exampleSession = 125"
  by (simp_all add: exampleSession_def valid_config_def sixteenthsPerBeat_def beatDurMs_def
      sixteenthDurMs_def)

lemma example_search:
  "findBestBeat 4 2875 [0, 500, 1000, 1500, 2000, 2500, 3000] = 2"
  "findBestBeat 4 2375 [0, 500, 1000, 1500, 2000, 2500, 3000] = 1"
  "findBestBeat 4 1900 [0, 500, 1000, 1500, 2000, 2500, 3000] = 0"
  by (simp_all add: findBestBeat_def bestBeat_step_def)








section \<open>Note-ons before the first post-intro beat\<close>

lemma map_get_map_set: "map_get (map_set k v m) k = Some v"
  by (induction m) (auto simp: map_get_def)

lemma map_get_map_delete: "map_get (map_delete k m) k = None"
  by (induction m) (auto simp: map_get_def map_delete_def)

lemma resolveNoteOff_outside:
  assumes "map_get (activeNotes st) p = Some e" "\<not> inSession st e"
  shows "resolveNoteOff st p t = st\<lparr>activeNotes := map_delete p (activeNotes st)\<rparr>"
  using assms by (simp add: resolveNoteOff_def)

lemma resolveNoteOff_inside:
  assumes "map_get (activeNotes st) p = Some e" "inSession st e"
  shows "resolveNoteOff st p t =
           st\<lparr>recordedNotes :=
                 (if \<not> isLatencyTesting st then recordedNotes st @ [newNote st p t e]
                  else recordedNotes st),
               sessionNotes := sessionNotes st @ [newNote st p t e],
               activeNotes := map_delete p (activeNotes st)\<rparr>"
  using assms by (simp add: resolveNoteOff_def Let_def)

lemma resolveNoteOff_absent:
  assumes "map_get (activeNotes st) p = None"
  shows "resolveNoteOff st p t = st"
  using assms by (simp add: resolveNoteOff_def)

lemma flushedNotes_in_range:
  "n \<in> set (flushedNotes st now) \<Longrightarrow> 0 \<le> measure n \<and> measure n < measures st"
  by (auto simp: flushedNotes_def inSession_def newNote_def)

lemma normalizedBeatIdx_closed:
  fixes st :: app_state and t :: rat
  assumes v: "valid_config st"
  defines "j \<equiv> findBestBeat (beats (timeSig st)) t (beatTimes st)"
  defines "raw \<equiv> js_round ((t - beatTimes st ! nat (j + beats (timeSig st))) / sixteenthDurMs st)"
  shows "normalizedBeatIdx st t = Some (j + raw div sixteenthsPerBeat st)"
  unfolding normalizedBeatIdx_def Let_def j_def [symmetric] raw_def [symmetric]
  by (simp add: normalizeGrid_closed [OF valid_spb_pos [OF v]])

text \<open>
  Claim C6 says that a note-on whose normalised beat index is negative creates no entry in the
  table of sounding notes. In the example session a key pressed 100 ms before the first
  post-intro beat has the normalised beat index \<open>-1\<close> and is stored, with measure \<open>-1\<close>.
\<close>

theorem early_note_on_stored_counterexample:
  "isRecording exampleSession \<and> isNoteOn (statusByte (keyDown 60 1900)) (vel (keyDown 60 1900)) \<and>
   normalizedBeatIdx exampleSession 1900 = Some (- 1) \<and>
   onMidiSignal exampleSession (keyDown 60 1900) =
     Some (exampleSession\<lparr>activeNotes :=
        [(60, \<lparr>startTime = 1900, mIdx = - 1, bIdx = - 1, sIdx = 3, startDiffMs = 25\<rparr>)]\<rparr>)"
proof -
  have on: "isNoteOn (statusByte (keyDown 60 1900)) (vel (keyDown 60 1900))"
    by (simp add: isNoteOn_def command_of_def keyDown_def)
  have rec: "isRecording exampleSession" by (simp add: exampleSession_def)
  have len: "beats (timeSig exampleSession) < int (length (beatTimes exampleSession))"
    by (simp add: exampleSession_def)
  have r: "js_round ((1900 - 2000) / 125) = - 1" by (simp add: js_round_def floor_eq_iff)
  have a: "normalizedBeatIdx exampleSession 1900 = Some (- 1)"
    using normalizedBeatIdx_closed [OF example_config(1), of 1900] r
    by (simp add: example_config) (simp add: exampleSession_def example_search)
  have b: "recordNoteOn exampleSession 60 1900 =
     Some (exampleSession\<lparr>activeNotes :=
        [(60, \<lparr>startTime = 1900, mIdx = - 1, bIdx = - 1, sIdx = 3, startDiffMs = 25\<rparr>)]\<rparr>)"
    using recordNoteOn_closed [OF example_config(1) len, of 60 1900] r
    by (simp add: example_config) (simp add: exampleSession_def example_search js_rem_def)
  show ?thesis
    using a b rec on onMidiSignal_note_on [OF rec on]
    by (simp add: keyDown_def pitchOf_def exampleSession_def)
qed

text \<open>
  Claim C6, amended. A note-on creates no entry when no post-intro beat has been scheduled.
  Once one has, every note-on is stored; when its normalised beat index is negative the entry
  has a negative measure, and its note-off removes it without a recorded note, as does the
  flush at stop.
\<close>

theorem early_note_on_dropped_at_resolve:
  fixes st :: app_state and sg :: midi_signal
  assumes v: "valid_config st"
    and rec: "isRecording st" and on: "isNoteOn (statusByte sg) (vel sg)"
  shows "(int (length (beatTimes st)) \<le> beats (timeSig st) \<longrightarrow> onMidiSignal st sg = Some st) \<and>
    (beats (timeSig st) < int (length (beatTimes st)) \<longrightarrow>
      (\<exists>e. onMidiSignal st sg =
              Some (st\<lparr>activeNotes := map_set (pitchOf sg) e (activeNotes st)\<rparr>) \<and>
         (\<forall>bI. normalizedBeatIdx st (timeStamp sg - of_int (latencyMs st)) = Some bI \<and> bI < 0 \<longrightarrow>
            mIdx e < 0 \<and>
            (\<forall>t'. sessionNotes (resolveNoteOff
                       (st\<lparr>activeNotes := map_set (pitchOf sg) e (activeNotes st)\<rparr>)
                       (pitchOf sg) t') = sessionNotes st \<and>
                  recordedNotes (resolveNoteOff
                       (st\<lparr>activeNotes := map_set (pitchOf sg) e (activeNotes st)\<rparr>)
                       (pitchOf sg) t') = recordedNotes st \<and>
                  map_get (activeNotes (resolveNoteOff
                       (st\<lparr>activeNotes := map_set (pitchOf sg) e (activeNotes st)\<rparr>)
                       (pitchOf sg) t')) (pitchOf sg) = None) \<and>
            (\<forall>now. newNote st (pitchOf sg) (now - of_int (latencyMs st)) e \<notin>
                     set (flushedNotes
                       (st\<lparr>activeNotes := map_set (pitchOf sg) e (activeNotes st)\<rparr>) now)))))"
proof (intro conjI impI)
  assume "int (length (beatTimes st)) \<le> beats (timeSig st)"
  then have "recordNoteOn st (pitchOf sg) (timeStamp sg - of_int (latencyMs st)) = Some st"
    using valid_beats_pos [OF v] by (intro recordNoteOn_no_beat) simp_all
  then show "onMidiSignal st sg = Some st"
    using onMidiSignal_note_on [OF rec on] by simp
next
  assume len: "beats (timeSig st) < int (length (beatTimes st))"
  define p where "p = pitchOf sg"
  define t where "t = timeStamp sg - of_int (latencyMs st)"
  define j where "j = findBestBeat (beats (timeSig st)) t (beatTimes st)"
  define raw where
    "raw = js_round ((t - beatTimes st ! nat (j + beats (timeSig st))) / sixteenthDurMs st)"
  define e where "e =
     \<lparr>startTime = t,
      mIdx = (j + raw div sixteenthsPerBeat st) div beats (timeSig st),
      bIdx = js_rem (j + raw div sixteenthsPerBeat st) (beats (timeSig st)),
      sIdx = raw mod sixteenthsPerBeat st,
      startDiffMs = t - beatTimes st ! nat (j + beats (timeSig st)) -
                    of_int raw * sixteenthDurMs st\<rparr>"
  define st' where "st' = st\<lparr>activeNotes := map_set p e (activeNotes st)\<rparr>"
  have stored: "onMidiSignal st sg = Some st'"
    using recordNoteOn_closed [OF v len, of p t] onMidiSignal_note_on [OF rec on]
    by (simp add: st'_def e_def raw_def j_def p_def t_def)
  have nb: "normalizedBeatIdx st t = Some (j + raw div sixteenthsPerBeat st)"
    using normalizedBeatIdx_closed [OF v, of t] by (simp add: raw_def j_def)
  have get: "map_get (activeNotes st') p = Some e"
    by (simp add: st'_def map_get_map_set)
  have dropped: "mIdx e < 0 \<and>
      (\<forall>t'. sessionNotes (resolveNoteOff st' p t') = sessionNotes st \<and>
            recordedNotes (resolveNoteOff st' p t') = recordedNotes st \<and>
            map_get (activeNotes (resolveNoteOff st' p t')) p = None) \<and>
      (\<forall>now. newNote st p (now - of_int (latencyMs st)) e \<notin> set (flushedNotes st' now))"
    if neg: "normalizedBeatIdx st t = Some bI \<and> bI < 0" for bI
  proof -
    have "j + raw div sixteenthsPerBeat st < 0" using neg nb by simp
    then have m: "mIdx e < 0"
      using valid_beats_pos [OF v] by (simp add: e_def div_neg_pos_less0)
    then have out: "\<not> inSession st' e" by (simp add: inSession_def)
    have r: "resolveNoteOff st' p t' = st'\<lparr>activeNotes := map_delete p (activeNotes st')\<rparr>" for t'
      by (rule resolveNoteOff_outside [OF get out])
    have f: "newNote st p (now - of_int (latencyMs st)) e \<notin> set (flushedNotes st' now)" for now
    proof
      assume "newNote st p (now - of_int (latencyMs st)) e \<in> set (flushedNotes st' now)"
      from flushedNotes_in_range [OF this] m show False by (simp add: newNote_def)
    qed
    show ?thesis
      using m f by (simp add: r map_get_map_delete) (simp add: st'_def)
  qed
  show "\<exists>e. onMidiSignal st sg =
              Some (st\<lparr>activeNotes := map_set (pitchOf sg) e (activeNotes st)\<rparr>) \<and>
         (\<forall>bI. normalizedBeatIdx st (timeStamp sg - of_int (latencyMs st)) = Some bI \<and> bI < 0 \<longrightarrow>
            mIdx e < 0 \<and>
            (\<forall>t'. sessionNotes (resolveNoteOff
                       (st\<lparr>activeNotes := map_set (pitchOf sg) e (activeNotes st)\<rparr>)
                       (pitchOf sg) t') = sessionNotes st \<and>
                  recordedNotes (resolveNoteOff
                       (st\<lparr>activeNotes := map_set (pitchOf sg) e (activeNotes st)\<rparr>)
                       (pitchOf sg) t') = recordedNotes st \<and>
                  map_get (activeNotes (resolveNoteOff
                       (st\<lparr>activeNotes := map_set (pitchOf sg) e (activeNotes st)\<rparr>)
                       (pitchOf sg) t')) (pitchOf sg) = None) \<and>
            (\<forall>now. newNote st (pitchOf sg) (now - of_int (latencyMs st)) e \<notin>
                     set (flushedNotes
                       (st\<lparr>activeNotes := map_set (pitchOf sg) e (activeNotes st)\<rparr>) now)))"
    using stored dropped
    unfolding st'_def p_def t_def by (intro exI [of _ e]) blast
qed

lemma example_early:
  "normalizedBeatIdx exampleSession 1900 = Some (- 1)"
proof -
  have r: "js_round ((1900 - 2000) / 125) = - 1" by (simp add: js_round_def floor_eq_iff)
  show ?thesis
    using normalizedBeatIdx_closed [OF example_config(1), of 1900] r
    by (simp add: example_config) (simp add: exampleSession_def example_search)
qed

theorem early_note_on_dropped_at_resolve_witness:
  "valid_config exampleSession \<and> isRecording exampleSession \<and>
   isNoteOn (statusByte (keyDown 60 1900)) (vel (keyDown 60 1900)) \<and>
   beats (timeSig exampleSession) < int (length (beatTimes exampleSession)) \<and>
   normalizedBeatIdx exampleSession 1900 = Some (- 1) \<and>
   (\<exists>e. onMidiSignal exampleSession (keyDown 60 1900) =
           Some (exampleSession\<lparr>activeNotes := [(60, e)]\<rparr>) \<and>
        mIdx e < 0 \<and>
        sessionNotes (resolveNoteOff (exampleSession\<lparr>activeNotes := [(60, e)]\<rparr>) 60 2100) = [] \<and>
        recordedNotes (resolveNoteOff (exampleSession\<lparr>activeNotes := [(60, e)]\<rparr>) 60 2100) = [] \<and>
        map_get (activeNotes (resolveNoteOff (exampleSession\<lparr>activeNotes := [(60, e)]\<rparr>) 60 2100))
          60 = None) \<and>
   int (length (beatTimes (exampleSession\<lparr>beatTimes := [0, 500, 1000, 1500]\<rparr>)))
     \<le> beats (timeSig (exampleSession\<lparr>beatTimes := [0, 500, 1000, 1500]\<rparr>)) \<and>
   onMidiSignal (exampleSession\<lparr>beatTimes := [0, 500, 1000, 1500]\<rparr>) (keyDown 60 1900) =
     Some (exampleSession\<lparr>beatTimes := [0, 500, 1000, 1500]\<rparr>)"
proof -
  have on: "isNoteOn (statusByte (keyDown 60 1900)) (vel (keyDown 60 1900))"
    by (simp add: isNoteOn_def command_of_def keyDown_def)
  have rec: "isRecording exampleSession" by (simp add: exampleSession_def)
  have len: "beats (timeSig exampleSession) < int (length (beatTimes exampleSession))"
    by (simp add: exampleSession_def)
  have p: "pitchOf (keyDown 60 1900) = 60" "timeStamp (keyDown 60 1900) = 1900"
    by (simp_all add: pitchOf_def keyDown_def)
  have l0: "latencyMs exampleSession = 0" "activeNotes exampleSession = []"
    "sessionNotes exampleSession = []" "recordedNotes exampleSession = []"
    by (simp_all add: exampleSession_def)
  have v2: "valid_config (exampleSession\<lparr>beatTimes := [0, 500, 1000, 1500]\<rparr>)"
    using example_config(1) by (simp add: valid_config_def)
  have rec2: "isRecording (exampleSession\<lparr>beatTimes := [0, 500, 1000, 1500]\<rparr>)"
    using rec by simp
  have short: "int (length (beatTimes (exampleSession\<lparr>beatTimes := [0, 500, 1000, 1500]\<rparr>)))
     \<le> beats (timeSig (exampleSession\<lparr>beatTimes := [0, 500, 1000, 1500]\<rparr>))"
    by (simp add: exampleSession_def)
  have a: "\<exists>e. onMidiSignal exampleSession (keyDown 60 1900) =
           Some (exampleSession\<lparr>activeNotes := [(60, e)]\<rparr>) \<and>
        mIdx e < 0 \<and>
        sessionNotes (resolveNoteOff (exampleSession\<lparr>activeNotes := [(60, e)]\<rparr>) 60 2100) = [] \<and>
        recordedNotes (resolveNoteOff (exampleSession\<lparr>activeNotes := [(60, e)]\<rparr>) 60 2100) = [] \<and>
        map_get (activeNotes (resolveNoteOff (exampleSession\<lparr>activeNotes := [(60, e)]\<rparr>) 60 2100))
          60 = None"
    using early_note_on_dropped_at_resolve [OF example_config(1) rec on] len example_early
    unfolding p l0 by (simp del: One_nat_def) blast
  have b: "onMidiSignal (exampleSession\<lparr>beatTimes := [0, 500, 1000, 1500]\<rparr>) (keyDown 60 1900) =
     Some (exampleSession\<lparr>beatTimes := [0, 500, 1000, 1500]\<rparr>)"
    using early_note_on_dropped_at_resolve [OF v2 rec2 on] short by blast
  show ?thesis
    using example_config(1) rec on len example_early a b short by blast
qed

section \<open>Recorded notes over a session\<close>

lemma recordNoteOn_changes:
  assumes "recordNoteOn st p t = Some st'"
  shows "st' = st\<lparr>activeNotes := activeNotes st'\<rparr>"
  using assms
  by (auto simp: recordNoteOn_def Let_def split: if_splits option.splits prod.splits)

lemma resolveNoteOff_changes:
  "resolveNoteOff st p t =
     st\<lparr>recordedNotes := recordedNotes (resolveNoteOff st p t),
        sessionNotes := sessionNotes (resolveNoteOff st p t),
        activeNotes := activeNotes (resolveNoteOff st p t)\<rparr>"
  by (simp add: resolveNoteOff_def Let_def split: option.split)

lemma isNoteOff_not_on: "isNoteOff s v \<Longrightarrow> \<not> isNoteOn s v"
  by (auto simp: isNoteOn_def isNoteOff_def)

lemma onMidiSignal_note_off:
  assumes "isNoteOff (statusByte sg) (vel sg)"
  shows "onMidiSignal st sg =
           Some (resolveNoteOff st (pitchOf sg) (timeStamp sg - of_int (latencyMs st)))"
  using assms isNoteOff_not_on [OF assms] by (simp add: onMidiSignal_def Let_def)

lemma sameSetup_refl: "sameSetup st st"
  by (simp add: sameSetup_def)

lemma sameSetup_trans: "sameSetup a b \<Longrightarrow> sameSetup b c \<Longrightarrow> sameSetup a c"
  by (simp add: sameSetup_def)

lemma sameSetup_inSession: "sameSetup st st' \<Longrightarrow> inSession st' e = inSession st e"
  by (simp add: sameSetup_def inSession_def)

lemma resolveNoteOff_notes:
  assumes "n \<in> set (sessionNotes (resolveNoteOff st p t)) \<union>
               set (recordedNotes (resolveNoteOff st p t))"
  shows "n \<in> set (sessionNotes st) \<union> set (recordedNotes st) \<or>
         (\<exists>e. inSession st e \<and> n = newNote st p t e)"
  using assms
  by (auto simp: resolveNoteOff_def Let_def split: option.splits if_splits)

lemma stop_notes:
  assumes "n \<in> set (sessionNotes (stop st now)) \<union> set (recordedNotes (stop st now))"
  shows "n \<in> set (sessionNotes st) \<union> set (recordedNotes st) \<or>
         (\<exists>p e. inSession st e \<and> n = newNote st p (now - of_int (latencyMs st)) e)"
proof -
  have "n \<in> set (sessionNotes st) \<union> set (recordedNotes st) \<union> set (flushedNotes st now)"
    using assms by (auto simp: stop_def Let_def calibrate_def split: if_splits)
  then show ?thesis
    by (auto simp: flushedNotes_def)
qed

lemma stop_sameSetup: "sameSetup st (stop st now)"
  by (simp add: stop_def Let_def calibrate_def sameSetup_def)

lemma recordNoteOn_fields:
  assumes "recordNoteOn st p t = Some st'"
  shows "tempo st' = tempo st" "timeSig st' = timeSig st" "measures st' = measures st"
    "latencyMs st' = latencyMs st" "isLatencyTesting st' = isLatencyTesting st"
    "sessionNotes st' = sessionNotes st" "recordedNotes st' = recordedNotes st"
proof -
  obtain an where "st' = st\<lparr>activeNotes := an\<rparr>"
    using recordNoteOn_changes [OF assms] by blast
  then show "tempo st' = tempo st" "timeSig st' = timeSig st" "measures st' = measures st"
    "latencyMs st' = latencyMs st" "isLatencyTesting st' = isLatencyTesting st"
    "sessionNotes st' = sessionNotes st" "recordedNotes st' = recordedNotes st"
    by simp_all
qed

lemma resolveNoteOff_fields:
  "tempo (resolveNoteOff st p t) = tempo st" "timeSig (resolveNoteOff st p t) = timeSig st"
  "measures (resolveNoteOff st p t) = measures st"
  "latencyMs (resolveNoteOff st p t) = latencyMs st"
  "isLatencyTesting (resolveNoteOff st p t) = isLatencyTesting st"
  by (simp_all add: resolveNoteOff_def Let_def split: option.splits if_splits)

lemma onMidiSignal_cases:
  assumes "onMidiSignal st sg = Some st'"
  obtains st1 where
    "st1 = st \<or> recordNoteOn st (pitchOf sg) (timeStamp sg - of_int (latencyMs st)) = Some st1"
    "st' = st1 \<or> st' = resolveNoteOff st1 (pitchOf sg) (timeStamp sg - of_int (latencyMs st))"
  using assms by (auto simp: onMidiSignal_def Let_def split: if_splits option.splits)

lemma onMidiSignal_sameSetup:
  assumes "onMidiSignal st sg = Some st'"
  shows "sameSetup st st'" "latencyMs st' = latencyMs st" "isLatencyTesting st' = isLatencyTesting st"
proof -
  obtain st1 where
    a: "st1 = st \<or> recordNoteOn st (pitchOf sg) (timeStamp sg - of_int (latencyMs st)) = Some st1"
    and b: "st' = st1 \<or> st' = resolveNoteOff st1 (pitchOf sg) (timeStamp sg - of_int (latencyMs st))"
    using assms by (rule onMidiSignal_cases)
  have c: "tempo st1 = tempo st \<and> timeSig st1 = timeSig st \<and> measures st1 = measures st \<and>
        latencyMs st1 = latencyMs st \<and> isLatencyTesting st1 = isLatencyTesting st"
    using a recordNoteOn_fields by blast
  have d: "tempo st' = tempo st1 \<and> timeSig st' = timeSig st1 \<and> measures st' = measures st1 \<and>
        latencyMs st' = latencyMs st1 \<and> isLatencyTesting st' = isLatencyTesting st1"
    using b resolveNoteOff_fields by metis
  show "sameSetup st st'" "latencyMs st' = latencyMs st" "isLatencyTesting st' = isLatencyTesting st"
    using c d by (simp_all add: sameSetup_def)
qed

lemma onMidiSignal_notes:
  assumes "onMidiSignal st sg = Some st'"
    and "n \<in> set (sessionNotes st') \<union> set (recordedNotes st')"
  shows "n \<in> set (sessionNotes st) \<union> set (recordedNotes st) \<or>
         (\<exists>p t e. inSession st e \<and> n = newNote st p t e)"
proof -
  obtain st1 where
    a: "st1 = st \<or> recordNoteOn st (pitchOf sg) (timeStamp sg - of_int (latencyMs st)) = Some st1"
    and b: "st' = st1 \<or> st' = resolveNoteOff st1 (pitchOf sg) (timeStamp sg - of_int (latencyMs st))"
    using assms(1) by (rule onMidiSignal_cases)
  have c: "sessionNotes st1 = sessionNotes st \<and> recordedNotes st1 = recordedNotes st \<and>
    measures st1 = measures st \<and> tempo st1 = tempo st \<and> timeSig st1 = timeSig st"
    using a by (auto simp: recordNoteOn_fields)
  have e: "inSession st1 = inSession st" "newNote st1 = newNote st"
    using c by (auto simp: inSession_def newNote_def resolveDuration_def sixteenthDurMs_def
        beatDurMs_def sixteenthsPerBeat_def fun_eq_iff)
  show ?thesis
    using b assms(2) resolveNoteOff_notes [of n st1] c e by metis
qed

lemma session_step_sameSetup:
  assumes "session_step st a = Some st'"
  shows "sameSetup st st'"
proof (cases a)
  case (Signal sg)
  then show ?thesis using assms onMidiSignal_sameSetup(1) by (simp add: session_step_def)
next
  case (BeatScheduled x)
  then show ?thesis using assms by (auto simp: session_step_def sameSetup_def)
next
  case BeatFired
  then show ?thesis using assms by (auto simp: session_step_def sameSetup_def split: if_splits)
next
  case (Stop now)
  then show ?thesis using assms stop_sameSetup by (auto simp: session_step_def)
qed

lemma session_step_notes:
  assumes "session_step st a = Some st'" and "n \<in> allNotes st'"
  shows "n \<in> allNotes st \<or> (\<exists>p t e. inSession st e \<and> n = newNote st p t e)"
proof (cases a)
  case (Signal sg)
  then show ?thesis
    using assms onMidiSignal_notes [of st sg st' n] by (simp add: session_step_def allNotes_def)
next
  case (BeatScheduled x)
  then show ?thesis using assms by (auto simp: session_step_def allNotes_def)
next
  case BeatFired
  then show ?thesis using assms by (auto simp: session_step_def allNotes_def split: if_splits)
next
  case (Stop now)
  then show ?thesis
    using assms stop_notes [of n st now] by (auto simp: session_step_def allNotes_def)
qed

lemma run_sameSetup: "run st acts = Some st' \<Longrightarrow> sameSetup st st'"
proof (induction acts arbitrary: st)
  case Nil
  then show ?case by (simp add: sameSetup_refl)
next
  case (Cons a acts)
  then obtain st1 where s: "session_step st a = Some st1" and r: "run st1 acts = Some st'"
    by (auto split: option.splits)
  show ?case
    using sameSetup_trans [OF session_step_sameSetup [OF s] Cons.IH [OF r]] .
qed

text \<open>
  A property of recorded notes that every newly made note has, under the configuration of
  the session, holds of all notes after any run.
\<close>

lemma run_notes_invariant:
  assumes r: "run st acts = Some st'"
    and init: "\<forall>n \<in> allNotes st. P n"
    and new: "\<And>st1 p t e. sameSetup st st1 \<Longrightarrow> inSession st1 e \<Longrightarrow> P (newNote st1 p t e)"
  shows "\<forall>n \<in> allNotes st'. P n"
  using r init new
proof (induction acts arbitrary: st)
  case Nil
  then show ?case by simp
next
  case (Cons a acts)
  then obtain st1 where s: "session_step st a = Some st1" and r: "run st1 acts = Some st'"
    by (auto split: option.splits)
  have ss: "sameSetup st st1" by (rule session_step_sameSetup [OF s])
  have i1: "\<forall>n \<in> allNotes st1. P n"
  proof
    fix n assume "n \<in> allNotes st1"
    from session_step_notes [OF s this] show "P n"
      using Cons.prems(2) Cons.prems(3) [OF sameSetup_refl] by auto
  qed
  have n1: "\<And>st2 p t e. sameSetup st1 st2 \<Longrightarrow> inSession st2 e \<Longrightarrow> P (newNote st2 p t e)"
    using Cons.prems(3) sameSetup_trans [OF ss] by blast
  show ?case by (rule Cons.IH [OF r i1 n1])
qed

lemma onStart_fresh:
  assumes "\<not> isPlaying st0"
  shows "allNotes (onStart st0 now) = {}" "sameSetup st0 (onStart st0 now)"
  using assms by (simp_all add: onStart_def allNotes_def sameSetup_def)

lemma newNote_fields:
  "measure (newNote st p t e) = mIdx e" "midi (newNote st p t e) = p"
  "diffMs (newNote st p t e) = startDiffMs e"
  "durationSixteenths (newNote st p t e) =
     max 1 (js_round ((t - startTime e) / sixteenthDurMs st))"
  by (simp_all add: newNote_def resolveDuration_def)

lemma run_measures_in_range:
  assumes idle: "\<not> isPlaying st0" and r: "run (onStart st0 now0) acts = Some st"
  shows "(\<forall>n \<in> set (sessionNotes st) \<union> set (recordedNotes st).
            0 \<le> measure n \<and> measure n < measures st0) \<and>
         measures st = measures st0 \<and>
         (\<forall>p e t. map_get (activeNotes st) p = Some e \<and> \<not> (0 \<le> mIdx e \<and> mIdx e < measures st) \<longrightarrow>
            resolveNoteOff st p t = st\<lparr>activeNotes := map_delete p (activeNotes st)\<rparr>) \<and>
         (\<forall>now. sessionNotes (stop st now) = sessionNotes st @ flushedNotes st now \<and>
            flushedNotes st now =
              map (\<lambda>kv. newNote st (fst kv) (now - of_int (latencyMs st)) (snd kv))
                (filter (\<lambda>kv. 0 \<le> mIdx (snd kv) \<and> mIdx (snd kv) < measures st) (activeNotes st)))"
proof (intro conjI allI impI)
  have s0: "sameSetup st0 (onStart st0 now0)" by (rule onStart_fresh(2) [OF idle])
  have s1: "sameSetup (onStart st0 now0) st" by (rule run_sameSetup [OF r])
  show m: "measures st = measures st0" using s0 s1 by (simp add: sameSetup_def)
  have "\<forall>n \<in> allNotes st. 0 \<le> measure n \<and> measure n < measures st0"
  proof (rule run_notes_invariant [OF r])
    show "\<forall>n \<in> allNotes (onStart st0 now0). 0 \<le> measure n \<and> measure n < measures st0"
      by (simp add: onStart_fresh(1) [OF idle])
  next
    fix st1 p t e
    assume "sameSetup (onStart st0 now0) st1" "inSession st1 e"
    then show "0 \<le> measure (newNote st1 p t e) \<and> measure (newNote st1 p t e) < measures st0"
      using s0 by (simp add: newNote_fields inSession_def sameSetup_def)
  qed
  then show "\<forall>n \<in> set (sessionNotes st) \<union> set (recordedNotes st).
            0 \<le> measure n \<and> measure n < measures st0"
    by (simp add: allNotes_def)
next
  fix p e t
  assume "map_get (activeNotes st) p = Some e \<and> \<not> (0 \<le> mIdx e \<and> mIdx e < measures st)"
  then show "resolveNoteOff st p t = st\<lparr>activeNotes := map_delete p (activeNotes st)\<rparr>"
    by (intro resolveNoteOff_outside [of st p e]) (simp_all add: inSession_def)
next
  fix now
  show "sessionNotes (stop st now) = sessionNotes st @ flushedNotes st now"
    by (simp add: stop_def Let_def calibrate_def)
  show "flushedNotes st now =
              map (\<lambda>kv. newNote st (fst kv) (now - of_int (latencyMs st)) (snd kv))
                (filter (\<lambda>kv. 0 \<le> mIdx (snd kv) \<and> mIdx (snd kv) < measures st) (activeNotes st))"
    by (simp add: flushedNotes_def inSession_def)
qed

lemma run_duration_floor:
  assumes idle: "\<not> isPlaying st0" and r: "run (onStart st0 now0) acts = Some st"
  shows "(\<forall>n \<in> set (sessionNotes st) \<union> set (recordedNotes st). 1 \<le> durationSixteenths n) \<and>
         (\<forall>sg e. isNoteOff (statusByte sg) (vel sg) \<and>
                 map_get (activeNotes st) (pitchOf sg) = Some e \<and> inSession st e \<longrightarrow>
            (\<exists>st' n. onMidiSignal st sg = Some st' \<and>
               sessionNotes st' = sessionNotes st @ [n] \<and>
               durationSixteenths n =
                 max 1 (js_round ((timeStamp sg - of_int (latencyMs st) - startTime e) /
                                   sixteenthDurMs st)) \<and>
               1 \<le> durationSixteenths n)) \<and>
         (\<forall>now. sessionNotes (stop st now) = sessionNotes st @ flushedNotes st now \<and>
            (\<forall>n \<in> set (flushedNotes st now).
               1 \<le> durationSixteenths n \<and>
               (\<exists>kv \<in> set (activeNotes st). inSession st (snd kv) \<and> midi n = fst kv \<and>
                  durationSixteenths n =
                    max 1 (js_round ((now - of_int (latencyMs st) - startTime (snd kv)) /
                                      sixteenthDurMs st)))))"
proof (intro conjI allI impI)
  have "\<forall>n \<in> allNotes st. 1 \<le> durationSixteenths n"
  proof (rule run_notes_invariant [OF r])
    show "\<forall>n \<in> allNotes (onStart st0 now0). 1 \<le> durationSixteenths n"
      by (simp add: onStart_fresh(1) [OF idle])
  next
    fix st1 p t e
    show "1 \<le> durationSixteenths (newNote st1 p t e)"
      by (simp add: newNote_fields)
  qed
  then show "\<forall>n \<in> set (sessionNotes st) \<union> set (recordedNotes st). 1 \<le> durationSixteenths n"
    by (simp add: allNotes_def)
next
  fix sg :: midi_signal and e
  assume h: "isNoteOff (statusByte sg) (vel sg) \<and>
             map_get (activeNotes st) (pitchOf sg) = Some e \<and> inSession st e"
  define t where "t = timeStamp sg - of_int (latencyMs st)"
  have "onMidiSignal st sg = Some (resolveNoteOff st (pitchOf sg) t)"
    using h onMidiSignal_note_off by (simp add: t_def)
  moreover have "sessionNotes (resolveNoteOff st (pitchOf sg) t) =
                   sessionNotes st @ [newNote st (pitchOf sg) t e]"
    using h by (simp add: resolveNoteOff_inside [of st "pitchOf sg" e])
  ultimately show "\<exists>st' n. onMidiSignal st sg = Some st' \<and>
               sessionNotes st' = sessionNotes st @ [n] \<and>
               durationSixteenths n =
                 max 1 (js_round ((timeStamp sg - of_int (latencyMs st) - startTime e) /
                                   sixteenthDurMs st)) \<and>
               1 \<le> durationSixteenths n"
    by (intro exI [of _ "resolveNoteOff st (pitchOf sg) t"]
          exI [of _ "newNote st (pitchOf sg) t e"])
       (simp add: newNote_fields t_def)
next
  fix now
  show "sessionNotes (stop st now) = sessionNotes st @ flushedNotes st now"
    by (simp add: stop_def Let_def calibrate_def)
  show "\<forall>n \<in> set (flushedNotes st now).
               1 \<le> durationSixteenths n \<and>
               (\<exists>kv \<in> set (activeNotes st). inSession st (snd kv) \<and> midi n = fst kv \<and>
                  durationSixteenths n =
                    max 1 (js_round ((now - of_int (latencyMs st) - startTime (snd kv)) /
                                      sixteenthDurMs st)))"
    by (fastforce simp: flushedNotes_def newNote_fields)
qed

lemma example_run_intro:
  "run (onStart initialApp 0) introBeats =
     Some (initialApp\<lparr>isPlaying := True, isRecording := True,
             beatTimes := [100, 700, 1300, 1900, 2500]\<rparr>)"
  by (simp add: run_eval initialApp_def introBeats_def)

lemma example_run_notes:
  "run (onStart initialApp 0)
     (introBeats @ [Signal (keyDown 60 2500), Signal (keyUp 60 2500), Signal (keyDown 62 2400),
                    Signal (keyDown 64 2500)]) =
   Some (initialApp\<lparr>isPlaying := True, isRecording := True,
      beatTimes := [100, 700, 1300, 1900, 2500],
      recordedNotes := [\<lparr>midi = 60, diffMs = 0, measure = 0, beatIndex = 0,
           sixteenthIndex = 0, durationSixteenths = 1\<rparr>],
      sessionNotes := [\<lparr>midi = 60, diffMs = 0, measure = 0, beatIndex = 0,
           sixteenthIndex = 0, durationSixteenths = 1\<rparr>],
      activeNotes := [(62, \<lparr>startTime = 2400, mIdx = - 1, bIdx = - 1, sIdx = 3, startDiffMs = 50\<rparr>),
        (64, \<lparr>startTime = 2500, mIdx = 0, bIdx = 0, sIdx = 0, startDiffMs = 0\<rparr>)]\<rparr>)"
  by (simp add: run_eval initialApp_def introBeats_def)

lemma example_run_held: "run (onStart initialApp 0) exampleActions = Some exampleHeld"
  by (simp add: run_eval initialApp_def introBeats_def exampleActions_def exampleHeld_def)

text \<open>
  The deviation is the residual against the beat the search targets. With the second post-intro
  beat scheduled 1 ms late, a note-on three subdivisions after the first post-intro beat is
  nearer to the second one: it is stored at the first beat, subdivision 3, with a deviation of
  \<open>-1\<close> ms.
\<close>

lemma residual_against_target_example:
  "onMidiSignal (exampleSession\<lparr>beatTimes := [0, 500, 1000, 1500, 2000, 2501, 3000]\<rparr>)
     (keyDown 60 2375) =
   Some (exampleSession\<lparr>beatTimes := [0, 500, 1000, 1500, 2000, 2501, 3000],
      activeNotes := [(60, \<lparr>startTime = 2375, mIdx = 0, bIdx = 0, sIdx = 3, startDiffMs = - 1\<rparr>)]\<rparr>)"
  by (simp add: run_eval exampleSession_def)

lemma session_step_calibration:
  assumes "session_step st a = Some st'" "\<not> isStop a"
  shows "latencyMs st' = latencyMs st \<and> isLatencyTesting st' = isLatencyTesting st"
proof (cases a)
  case (Signal sg)
  then show ?thesis
    using assms onMidiSignal_sameSetup(2,3) [of st sg st'] by (simp add: session_step_def)
next
  case (BeatScheduled x)
  then show ?thesis using assms by (auto simp: session_step_def)
next
  case BeatFired
  then show ?thesis using assms by (auto simp: session_step_def split: if_splits)
next
  case (Stop now)
  then show ?thesis using assms by simp
qed

lemma run_calibration:
  assumes "run st acts = Some st'" "\<forall>a \<in> set acts. \<not> isStop a"
  shows "latencyMs st' = latencyMs st \<and> isLatencyTesting st' = isLatencyTesting st"
  using assms
proof (induction acts arbitrary: st)
  case Nil
  then show ?case by simp
next
  case (Cons a acts)
  then obtain st1 where s: "session_step st a = Some st1" and r: "run st1 acts = Some st'"
    by (auto split: option.splits)
  have "latencyMs st1 = latencyMs st \<and> isLatencyTesting st1 = isLatencyTesting st"
    using session_step_calibration [OF s] Cons.prems(2) by simp
  moreover have "latencyMs st' = latencyMs st1 \<and> isLatencyTesting st' = isLatencyTesting st1"
    using Cons.IH [OF r] Cons.prems(2) by simp
  ultimately show ?case by simp
qed

lemma stop_not_playing: "\<not> isPlaying (stop st now)"
  by (simp add: stop_def Let_def)

text \<open>
  Requested while nothing is playing, the calibration starts a run: the constant is 0, the
  run is marked as a calibration, and no note has been captured yet.
\<close>

lemma testLatency_starts:
  assumes "\<not> isPlaying st"
  shows "latencyMs (testLatency st now) = 0" "isLatencyTesting (testLatency st now)"
    "sessionNotes (testLatency st now) = []" "measures (testLatency st now) = 4"
    "timeSig (testLatency st now) = \<lparr>beats = 4, beatValue = 4\<rparr>"
    "isPlaying (testLatency st now)" "tempo (testLatency st now) = tempo st"
  using assms by (simp_all add: testLatency_def onStart_def Let_def)

lemma foldl_diffMs: "foldl (\<lambda>acc n. acc + diffMs n) a ns = a + sum_list (map diffMs ns)"
  by (induction ns arbitrary: a) simp_all

lemma stop_calibrating:
  fixes st :: app_state and now :: rat
  assumes "isLatencyTesting st"
  defines "captured \<equiv> sessionNotes st @ flushedNotes st now"
  shows "captured \<noteq> [] \<Longrightarrow>
           latencyMs (stop st now) =
             js_round (sum_list (map diffMs captured) / of_nat (length captured))"
    and "captured \<noteq> [] \<Longrightarrow>
           debugInfo (stop st now) =
             CalibrationComplete (sum_list (map diffMs captured) / of_nat (length captured))
               (js_round (sum_list (map diffMs captured) / of_nat (length captured)))"
    and "captured = [] \<Longrightarrow> latencyMs (stop st now) = latencyMs st"
    and "captured = [] \<Longrightarrow> debugInfo (stop st now) = CalibrationFailed"
    and "\<not> isLatencyTesting (stop st now)"
  using assms(1) unfolding captured_def
  by (simp_all add: stop_def Let_def calibrate_def foldl_diffMs)

lemma sum_list_shifted:
  fixes c :: rat
  shows "sum_list (map (\<lambda>e. c + e) es) = of_nat (length es) * c + sum_list es"
  by (induction es) (simp_all add: algebra_simps)

lemma stop_rounded_mean:
  assumes idle: "\<not> isPlaying st0"
    and r: "run (testLatency st0 now0) acts = Some st"
    and ns: "\<forall>a \<in> set acts. \<not> isStop a"
    and cap: "sessionNotes st @ flushedNotes st now \<noteq> []"
  shows "latencyMs (stop st now) =
           js_round (sum_list (map diffMs (sessionNotes st @ flushedNotes st now)) /
                     of_nat (length (sessionNotes st @ flushedNotes st now))) \<and>
         (\<forall>L es. map diffMs (sessionNotes st @ flushedNotes st now) = map (\<lambda>e. of_int L + e) es \<and>
                 sum_list es = 0 \<longrightarrow> latencyMs (stop st now) = L)"
proof (intro conjI allI impI)
  have t: "isLatencyTesting st"
    using run_calibration [OF r ns] testLatency_starts(2) [OF idle] by simp
  show m: "latencyMs (stop st now) =
           js_round (sum_list (map diffMs (sessionNotes st @ flushedNotes st now)) /
                     of_nat (length (sessionNotes st @ flushedNotes st now)))"
    by (rule stop_calibrating(1) [OF t cap])
  fix L :: int and es :: "rat list"
  assume h: "map diffMs (sessionNotes st @ flushedNotes st now) = map (\<lambda>e. of_int L + e) es \<and>
             sum_list es = 0"
  then have len: "length (sessionNotes st @ flushedNotes st now) = length es"
    by (metis length_map)
  then have "es \<noteq> []" using cap by auto
  then have n: "(of_nat (length es) :: rat) \<noteq> 0" by simp
  have "sum_list (map diffMs (sessionNotes st @ flushedNotes st now)) = of_nat (length es) * of_int L"
    using h by (simp add: sum_list_shifted)
  then have "sum_list (map diffMs (sessionNotes st @ flushedNotes st now)) /
               of_nat (length (sessionNotes st @ flushedNotes st now)) = of_int L"
    using n len by simp
  then show "latencyMs (stop st now) = L"
    using m by (simp only: js_round_of_int)
qed

text \<open>For a delay \<open>L\<close> that is not a whole number of milliseconds the new constant is \<open>L\<close> rounded.\<close>

lemma stop_rounded_shift:
  fixes L :: rat
  assumes idle: "\<not> isPlaying st0"
    and r: "run (testLatency st0 now0) acts = Some st"
    and ns: "\<forall>a \<in> set acts. \<not> isStop a"
    and cap: "sessionNotes st @ flushedNotes st now \<noteq> []"
    and h: "map diffMs (sessionNotes st @ flushedNotes st now) = map (\<lambda>e. L + e) es"
      "sum_list es = 0"
  shows "latencyMs (stop st now) = js_round L"
proof -
  have len: "length (sessionNotes st @ flushedNotes st now) = length es"
    using h(1) by (metis length_map)
  then have "es \<noteq> []" using cap by auto
  then have n: "(of_nat (length es) :: rat) \<noteq> 0" by simp
  have "sum_list (map diffMs (sessionNotes st @ flushedNotes st now)) = of_nat (length es) * L"
    using h by (simp add: sum_list_shifted)
  then have "sum_list (map diffMs (sessionNotes st @ flushedNotes st now)) /
               of_nat (length (sessionNotes st @ flushedNotes st now)) = L"
    using n len by simp
  then show ?thesis
    using stop_rounded_mean [OF idle r ns cap] by simp
qed

text \<open>
  Claim C5 says that after a calibration run without notes the latency constant equals its
  value from before the calibration. With a constant of 25 before and nothing playing, a run
  that captures nothing is reported as failed and leaves the constant at 0.
\<close>

theorem failed_calibration_counterexample:
  "\<not> isPlaying (initialApp\<lparr>latencyMs := 25\<rparr>) \<and>
   latencyMs (initialApp\<lparr>latencyMs := 25\<rparr>) = 25 \<and>
   isLatencyTesting (testLatency (initialApp\<lparr>latencyMs := 25\<rparr>) 0) \<and>
   sessionNotes (stop (testLatency (initialApp\<lparr>latencyMs := 25\<rparr>) 0) 9000) = [] \<and>
   debugInfo (stop (testLatency (initialApp\<lparr>latencyMs := 25\<rparr>) 0) 9000) = CalibrationFailed \<and>
   latencyMs (stop (testLatency (initialApp\<lparr>latencyMs := 25\<rparr>) 0) 9000) = 0"
  by (simp add: initialApp_def testLatency_def onStart_def stop_def Let_def calibrate_def
      flushedNotes_def)

lemma example_run_calibration:
  "run (testLatency (initialApp\<lparr>latencyMs := 25\<rparr>) 0) calibrationActions = Some calibrationHeld"
  by (simp add: run_eval testLatency_def initialApp_def introBeats_def calibrationActions_def
      calibrationHeld_def)

lemma example_run_silent:
  "run (testLatency (initialApp\<lparr>latencyMs := 25\<rparr>) 0) introBeats =
     Some (initialApp\<lparr>isPlaying := True, isRecording := True, isLatencyTesting := True,
       debugInfo := CalibrationStarting, beatTimes := [100, 700, 1300, 1900, 2500]\<rparr>)"
  by (simp add: run_eval testLatency_def initialApp_def introBeats_def)

lemma example_run_half_ms:
  "run (testLatency initialApp 0) halfMsActions = Some halfMsHeld"
  by (simp add: run_eval testLatency_def initialApp_def introBeats_def halfMsActions_def
      halfMsHeld_def)

text \<open>
  Requested while a session is playing, the calibration starts no run. The session is stopped
  and its held notes are flushed; the deferred call stops once more, as a calibration, over
  the notes of the interrupted session: with at least one such note the constant becomes
  their rounded mean, with none the calibration is reported as failed and the constant is 0.
\<close>

lemma testLatency_while_playing:
  assumes p: "isPlaying st" and t: "\<not> isLatencyTesting st"
  shows "\<not> isPlaying (testLatency st now)" "\<not> isLatencyTesting (testLatency st now)"
    and "sessionNotes (testLatency st now) = sessionNotes st @ flushedNotes st now"
    and "sessionNotes st @ flushedNotes st now \<noteq> [] \<Longrightarrow>
           latencyMs (testLatency st now) =
             js_round (sum_list (map diffMs (sessionNotes st @ flushedNotes st now)) /
                       of_nat (length (sessionNotes st @ flushedNotes st now)))"
    and "sessionNotes st @ flushedNotes st now = [] \<Longrightarrow>
           latencyMs (testLatency st now) = 0 \<and> debugInfo (testLatency st now) = CalibrationFailed"
  using p t
  by (simp_all add: testLatency_def stop_def Let_def calibrate_def flushedNotes_def foldl_diffMs)

lemma example_run_late_note:
  "run (onStart initialApp 0) lateNoteActions = Some lateNotePlaying"
  by (simp add: run_eval initialApp_def introBeats_def lateNoteActions_def lateNotePlaying_def)

lemma example_testLatency_while_playing:
  "testLatency lateNotePlaying 3000 =
     lateNotePlaying\<lparr>isPlaying := False, isRecording := False, latencyMs := 30,
       debugInfo := CalibrationComplete 30 30\<rparr>"
  by (simp add: testLatency_def stop_def Let_def calibrate_def flushedNotes_def
      lateNotePlaying_def initialApp_def js_round_def floor_rat_numeral)

lemma stop_failed_calibration:
  assumes idle: "\<not> isPlaying st0"
    and r: "run (testLatency st0 now0) acts = Some st"
    and ns: "\<forall>a \<in> set acts. \<not> isStop a"
    and cap: "sessionNotes st @ flushedNotes st now = []"
  shows "debugInfo (stop st now) = CalibrationFailed \<and>
         latencyMs (stop st now) = latencyMs st \<and> latencyMs st = 0"
proof -
  have t: "isLatencyTesting st" "latencyMs st = 0"
    using run_calibration [OF r ns] testLatency_starts(1,2) [OF idle] by simp_all
  show ?thesis
    using stop_calibrating(3,4) [OF t(1) cap] t(2) by simp
qed

section \<open>Whole sessions\<close>

lemma recordNoteOn_returns:
  assumes "0 < sixteenthsPerBeat st"
  shows "\<exists>st'. recordNoteOn st p t = Some st'"
  by (simp add: recordNoteOn_def Let_def normalizeGrid_closed [OF assms])

lemma onMidiSignal_returns:
  assumes "valid_config st"
  shows "\<exists>st'. onMidiSignal st sg = Some st'"
proof -
  obtain st1 where
    "recordNoteOn st (pitchOf sg) (timeStamp sg - of_int (latencyMs st)) = Some st1"
    using recordNoteOn_returns [OF valid_spb_pos [OF assms]] by blast
  then show ?thesis
    by (simp add: onMidiSignal_def Let_def)
qed

lemma session_step_returns:
  assumes "valid_config st"
  shows "\<exists>st'. session_step st a = Some st'"
  using onMidiSignal_returns [OF assms] by (cases a) (simp_all add: session_step_def)

lemma sameSetup_valid: "sameSetup st st' \<Longrightarrow> valid_config st' = valid_config st"
  by (simp add: sameSetup_def valid_config_def)

text \<open>Under a valid configuration every handler returns, and so does every run.\<close>

lemma run_returns:
  assumes "valid_config st"
  shows "\<exists>st'. run st acts = Some st'"
  using assms
proof (induction acts arbitrary: st)
  case Nil
  then show ?case by simp
next
  case (Cons a acts)
  obtain st1 where s: "session_step st a = Some st1"
    using session_step_returns [OF Cons.prems] by blast
  have "valid_config st1"
    using sameSetup_valid [OF session_step_sameSetup [OF s]] Cons.prems by simp
  from Cons.IH [OF this] show ?case by (simp add: s)
qed

lemma testLatency_valid:
  assumes "\<not> isPlaying st0" "40 \<le> tempo st0" "tempo st0 \<le> 240"
  shows "valid_config (testLatency st0 now0)"
  using assms by (simp add: valid_config_def testLatency_starts)

text \<open>
  Claim C8. A freshly started session with a valid configuration runs through any sequence
  of signals, scheduled beats and stops, and afterwards every note in the session's note list
  and in the displayed list has its measure in \<open>[0, measures)\<close>. A note-off for an active
  entry whose measure is outside that range only removes the entry, and the flush at stop
  makes notes from the entries within the range only.
\<close>

theorem recorded_measures_in_range:
  assumes v: "valid_config st0" and idle: "\<not> isPlaying st0"
  shows "\<exists>st. run (onStart st0 now0) acts = Some st \<and>
         (\<forall>n \<in> set (sessionNotes st) \<union> set (recordedNotes st).
            0 \<le> measure n \<and> measure n < measures st0) \<and>
         measures st = measures st0 \<and>
         (\<forall>p e t. map_get (activeNotes st) p = Some e \<and> \<not> (0 \<le> mIdx e \<and> mIdx e < measures st) \<longrightarrow>
            resolveNoteOff st p t = st\<lparr>activeNotes := map_delete p (activeNotes st)\<rparr>) \<and>
         (\<forall>now. sessionNotes (stop st now) = sessionNotes st @ flushedNotes st now \<and>
            flushedNotes st now =
              map (\<lambda>kv. newNote st (fst kv) (now - of_int (latencyMs st)) (snd kv))
                (filter (\<lambda>kv. 0 \<le> mIdx (snd kv) \<and> mIdx (snd kv) < measures st) (activeNotes st)))"
proof -
  have "valid_config (onStart st0 now0)"
    using sameSetup_valid [OF onStart_fresh(2) [OF idle]] v by simp
  then obtain st where r: "run (onStart st0 now0) acts = Some st"
    using run_returns by blast
  show ?thesis
    using run_measures_in_range [OF idle r] r by (intro exI [of _ st]) blast
qed

text \<open>
  Claim C9. A note-off that resolves an active entry, and the flush at stop, give the note the
  duration \<open>max(1, round((off - start) / sixteenthDurMs))\<close>, which is at least 1 also when
  the off timestamp equals or precedes the start; every note recorded in a session has a
  duration of at least 1.
\<close>

theorem duration_floor:
  assumes v: "valid_config st0" and idle: "\<not> isPlaying st0"
  shows "\<exists>st. run (onStart st0 now0) acts = Some st \<and>
         (\<forall>n \<in> set (sessionNotes st) \<union> set (recordedNotes st). 1 \<le> durationSixteenths n) \<and>
         (\<forall>sg e. isNoteOff (statusByte sg) (vel sg) \<and>
                 map_get (activeNotes st) (pitchOf sg) = Some e \<and> inSession st e \<longrightarrow>
            (\<exists>st' n. onMidiSignal st sg = Some st' \<and>
               sessionNotes st' = sessionNotes st @ [n] \<and>
               durationSixteenths n =
                 max 1 (js_round ((timeStamp sg - of_int (latencyMs st) - startTime e) /
                                   sixteenthDurMs st)) \<and>
               1 \<le> durationSixteenths n)) \<and>
         (\<forall>now. sessionNotes (stop st now) = sessionNotes st @ flushedNotes st now \<and>
            (\<forall>n \<in> set (flushedNotes st now).
               1 \<le> durationSixteenths n \<and>
               (\<exists>kv \<in> set (activeNotes st). inSession st (snd kv) \<and> midi n = fst kv \<and>
                  durationSixteenths n =
                    max 1 (js_round ((now - of_int (latencyMs st) - startTime (snd kv)) /
                                      sixteenthDurMs st)))))"
proof -
  have "valid_config (onStart st0 now0)"
    using sameSetup_valid [OF onStart_fresh(2) [OF idle]] v by simp
  then obtain st where r: "run (onStart st0 now0) acts = Some st"
    using run_returns by blast
  show ?thesis
    using run_duration_floor [OF idle r] r by (intro exI [of _ st]) blast
qed

text \<open>
  Claim C4 says that for deviations \<open>L + e\<^sub>i\<close> whose \<open>e\<^sub>i\<close> sum to zero the new constant
  equals \<open>L\<close>. In a calibration run started from the idle initial state two notes are played
  20.5 ms and 0.5 ms after their beats: the deviations are \<open>10.5 + 10\<close> and \<open>10.5 - 10\<close>, and
  stopping the run sets the constant to 11, not to 10.5.
\<close>

theorem calibration_half_ms_counterexample:
  "\<not> isPlaying initialApp \<and>
   run (testLatency initialApp 0) halfMsActions = Some halfMsHeld \<and>
   map diffMs (sessionNotes halfMsHeld @ flushedNotes halfMsHeld 3400) =
     [21 / 2 + 10, 21 / 2 + (- 10)] \<and>
   (10 :: rat) + (- 10) = 0 \<and>
   latencyMs (stop halfMsHeld 3400) = 11 \<and>
   (of_int (latencyMs (stop halfMsHeld 3400)) :: rat) \<noteq> 21 / 2"
  using example_run_half_ms
  by (simp add: halfMsHeld_def initialApp_def stop_def Let_def calibrate_def flushedNotes_def
      js_round_def floor_rat_numeral)

text \<open>
  Claim C4, amended. A calibration requested while nothing is playing starts a run that has
  captured no note yet. The run returns a state, and when it has captured at least one note,
  those flushed at stop included, stopping it sets the latency constant to the mean of the
  captured deviations rounded to the nearest integer, a tie going up. If the deviations are
  \<open>L + e\<^sub>i\<close> and the \<open>e\<^sub>i\<close> sum to zero, the new constant is \<open>L\<close> rounded in that way; it is
  \<open>L\<close> itself when \<open>L\<close> is a whole number of milliseconds.
\<close>

theorem calibration_rounds_mean:
  assumes idle: "\<not> isPlaying st0"
    and tempo: "40 \<le> tempo st0" "tempo st0 \<le> 240"
    and ns: "\<forall>a \<in> set acts. \<not> isStop a"
  shows "isLatencyTesting (testLatency st0 now0) \<and> sessionNotes (testLatency st0 now0) = [] \<and>
         (\<exists>st. run (testLatency st0 now0) acts = Some st \<and>
            (\<forall>now. sessionNotes st @ flushedNotes st now \<noteq> [] \<longrightarrow>
               latencyMs (stop st now) =
                 js_round (sum_list (map diffMs (sessionNotes st @ flushedNotes st now)) /
                           of_nat (length (sessionNotes st @ flushedNotes st now))) \<and>
               (\<forall>L es. map diffMs (sessionNotes st @ flushedNotes st now) =
                         map (\<lambda>e. L + e) es \<and> sum_list es = 0 \<longrightarrow>
                       latencyMs (stop st now) = js_round L) \<and>
               (\<forall>L es. map diffMs (sessionNotes st @ flushedNotes st now) =
                         map (\<lambda>e. of_int L + e) es \<and> sum_list es = 0 \<longrightarrow>
                       latencyMs (stop st now) = L)))"
proof -
  obtain st where r: "run (testLatency st0 now0) acts = Some st"
    using run_returns [OF testLatency_valid [OF idle tempo]] by blast
  have "\<forall>now. sessionNotes st @ flushedNotes st now \<noteq> [] \<longrightarrow>
               latencyMs (stop st now) =
                 js_round (sum_list (map diffMs (sessionNotes st @ flushedNotes st now)) /
                           of_nat (length (sessionNotes st @ flushedNotes st now))) \<and>
               (\<forall>L es. map diffMs (sessionNotes st @ flushedNotes st now) =
                         map (\<lambda>e. L + e) es \<and> sum_list es = 0 \<longrightarrow>
                       latencyMs (stop st now) = js_round L) \<and>
               (\<forall>L es. map diffMs (sessionNotes st @ flushedNotes st now) =
                         map (\<lambda>e. of_int L + e) es \<and> sum_list es = 0 \<longrightarrow>
                       latencyMs (stop st now) = L)"
    using stop_rounded_mean [OF idle r ns] stop_rounded_shift [OF idle r ns] by blast
  then show ?thesis
    using r testLatency_starts(2,3) [OF idle, of now0] by blast
qed

text \<open>
  Claim C5, amended. A calibration requested while nothing is playing sets the latency
  constant to 0 and starts a run. When the run captures no note, stopping it reports the
  failed calibration and does not change the constant, which therefore stays 0, whatever it
  was before the calibration.
\<close>

theorem failed_calibration_leaves_zero:
  assumes idle: "\<not> isPlaying st0"
    and tempo: "40 \<le> tempo st0" "tempo st0 \<le> 240"
    and ns: "\<forall>a \<in> set acts. \<not> isStop a"
  shows "isLatencyTesting (testLatency st0 now0) \<and>
         (\<exists>st. run (testLatency st0 now0) acts = Some st \<and> latencyMs st = 0 \<and>
            (\<forall>now. sessionNotes st @ flushedNotes st now = [] \<longrightarrow>
               debugInfo (stop st now) = CalibrationFailed \<and>
               latencyMs (stop st now) = latencyMs st))"
proof -
  obtain st where r: "run (testLatency st0 now0) acts = Some st"
    using run_returns [OF testLatency_valid [OF idle tempo]] by blast
  have z: "latencyMs st = 0"
    using run_calibration [OF r ns] testLatency_starts(1) [OF idle] by simp
  have "\<forall>now. sessionNotes st @ flushedNotes st now = [] \<longrightarrow>
               debugInfo (stop st now) = CalibrationFailed \<and>
               latencyMs (stop st now) = latencyMs st"
    using stop_failed_calibration [OF idle r ns] by blast
  then show ?thesis
    using r z testLatency_starts(2) [OF idle, of now0] by blast
qed

lemma initialApp_valid: "valid_config initialApp" "\<not> isPlaying initialApp"
  by (simp_all add: initialApp_def valid_config_def)

theorem recorded_measures_in_range_witness:
  "valid_config initialApp \<and> \<not> isPlaying initialApp \<and>
   run (onStart initialApp 0) exampleActions = Some exampleHeld \<and>
   map measure (sessionNotes exampleHeld) = [0] \<and> map measure (recordedNotes exampleHeld) = [0] \<and>
   measures exampleHeld = 4 \<and>
   map_get (activeNotes exampleHeld) 62 =
     Some \<lparr>startTime = 2400, mIdx = - 1, bIdx = - 1, sIdx = 3, startDiffMs = 50\<rparr> \<and>
   resolveNoteOff exampleHeld 62 2700 =
     exampleHeld\<lparr>activeNotes :=
       [(64, \<lparr>startTime = 2500, mIdx = 0, bIdx = 0, sIdx = 0, startDiffMs = 0\<rparr>)]\<rparr> \<and>
   sessionNotes (stop exampleHeld 3100) =
     [\<lparr>midi = 60, diffMs = 0, measure = 0, beatIndex = 0, sixteenthIndex = 0,
        durationSixteenths = 1\<rparr>,
      \<lparr>midi = 64, diffMs = 0, measure = 0, beatIndex = 0, sixteenthIndex = 0,
        durationSixteenths = 4\<rparr>]"
proof -
  obtain st where r: "run (onStart initialApp 0) exampleActions = Some st"
    and p: "(\<forall>p e t. map_get (activeNotes st) p = Some e \<and>
                \<not> (0 \<le> mIdx e \<and> mIdx e < measures st) \<longrightarrow>
            resolveNoteOff st p t = st\<lparr>activeNotes := map_delete p (activeNotes st)\<rparr>)"
    and q: "(\<forall>now. sessionNotes (stop st now) = sessionNotes st @ flushedNotes st now \<and>
            flushedNotes st now =
              map (\<lambda>kv. newNote st (fst kv) (now - of_int (latencyMs st)) (snd kv))
                (filter (\<lambda>kv. 0 \<le> mIdx (snd kv) \<and> mIdx (snd kv) < measures st) (activeNotes st)))"
    using recorded_measures_in_range [OF initialApp_valid, of 0 exampleActions] by blast
  have st: "st = exampleHeld" using r example_run_held by simp
  show ?thesis
    using p q initialApp_valid example_run_held unfolding st
    by (simp add: exampleHeld_def initialApp_def map_get_def map_delete_def newNote_def
        resolveDuration_def sixteenthDurMs_def beatDurMs_def sixteenthsPerBeat_def js_round_def
        floor_rat_numeral)
qed

theorem duration_floor_witness:
  "valid_config initialApp \<and> \<not> isPlaying initialApp \<and>
   run (onStart initialApp 0) exampleActions = Some exampleHeld \<and>
   map durationSixteenths (sessionNotes exampleHeld) = [1] \<and>
   isNoteOff (statusByte (keyUp 64 2500)) (vel (keyUp 64 2500)) \<and>
   map_get (activeNotes exampleHeld) (pitchOf (keyUp 64 2500)) =
     Some \<lparr>startTime = 2500, mIdx = 0, bIdx = 0, sIdx = 0, startDiffMs = 0\<rparr> \<and>
   inSession exampleHeld \<lparr>startTime = 2500, mIdx = 0, bIdx = 0, sIdx = 0, startDiffMs = 0\<rparr> \<and>
   map_option (\<lambda>st'. map durationSixteenths (sessionNotes st'))
     (onMidiSignal exampleHeld (keyUp 64 2500)) = Some [1, 1] \<and>
   map_option (\<lambda>st'. map durationSixteenths (sessionNotes st'))
     (onMidiSignal exampleHeld (keyUp 64 2000)) = Some [1, 1] \<and>
   map_option (\<lambda>st'. map durationSixteenths (sessionNotes st'))
     (onMidiSignal exampleHeld (keyUp 64 2950)) = Some [1, 3] \<and>
   map durationSixteenths (sessionNotes (stop exampleHeld 3100)) = [1, 4]"
proof -
  obtain st where r: "run (onStart initialApp 0) exampleActions = Some st"
    and p: "\<forall>n \<in> set (sessionNotes st) \<union> set (recordedNotes st). 1 \<le> durationSixteenths n"
    using duration_floor [OF initialApp_valid, of 0 exampleActions] by blast
  have st: "st = exampleHeld" using r example_run_held by simp
  show ?thesis
    using p initialApp_valid example_run_held unfolding st
    by (simp add: exampleHeld_def initialApp_def run_eval stop_def flushedNotes_def calibrate_def)
qed

theorem calibration_rounds_mean_witness:
  "\<not> isPlaying (initialApp\<lparr>latencyMs := 25\<rparr>) \<and>
   40 \<le> tempo (initialApp\<lparr>latencyMs := 25\<rparr>) \<and> tempo (initialApp\<lparr>latencyMs := 25\<rparr>) \<le> 240 \<and>
   list_all (\<lambda>a. \<not> isStop a) calibrationActions \<and>
   sessionNotes (testLatency (initialApp\<lparr>latencyMs := 25\<rparr>) 0) = [] \<and>
   run (testLatency (initialApp\<lparr>latencyMs := 25\<rparr>) 0) calibrationActions = Some calibrationHeld \<and>
   map diffMs (sessionNotes calibrationHeld @ flushedNotes calibrationHeld 3400) =
     map (\<lambda>e. of_int 10 + e) [10, - 10, 0] \<and>
   sum_list [10, - 10, 0 :: rat] = 0 \<and>
   js_round (sum_list (map diffMs (sessionNotes calibrationHeld @ flushedNotes calibrationHeld 3400)) /
             of_nat (length (sessionNotes calibrationHeld @ flushedNotes calibrationHeld 3400))) = 10 \<and>
   latencyMs (stop calibrationHeld 3400) = 10"
proof -
  have i: "\<not> isPlaying (initialApp\<lparr>latencyMs := 25\<rparr>)"
    by (simp add: initialApp_def)
  have t: "40 \<le> tempo (initialApp\<lparr>latencyMs := 25\<rparr>)" "tempo (initialApp\<lparr>latencyMs := 25\<rparr>) \<le> 240"
    by (simp_all add: initialApp_def)
  have ns: "\<forall>a \<in> set calibrationActions. \<not> isStop a"
    by (simp add: calibrationActions_def introBeats_def)
  have c: "map diffMs (sessionNotes calibrationHeld @ flushedNotes calibrationHeld 3400) =
             map (\<lambda>e. of_int 10 + e) [10, - 10, 0]"
    by (simp add: calibrationHeld_def initialApp_def flushedNotes_def inSession_def newNote_def)
  then have cap: "sessionNotes calibrationHeld @ flushedNotes calibrationHeld 3400 \<noteq> []"
    by auto
  have z: "sum_list [10, - 10, 0 :: rat] = 0" by simp
  have e: "sessionNotes (testLatency (initialApp\<lparr>latencyMs := 25\<rparr>) 0) = []"
    using calibration_rounds_mean [OF i t ns, of 0] by blast
  obtain st where r: "run (testLatency (initialApp\<lparr>latencyMs := 25\<rparr>) 0) calibrationActions = Some st"
    and p: "\<forall>now. sessionNotes st @ flushedNotes st now \<noteq> [] \<longrightarrow>
            latencyMs (stop st now) =
              js_round (sum_list (map diffMs (sessionNotes st @ flushedNotes st now)) /
                        of_nat (length (sessionNotes st @ flushedNotes st now))) \<and>
            (\<forall>L es. map diffMs (sessionNotes st @ flushedNotes st now) =
                      map (\<lambda>e. L + e) es \<and> sum_list es = 0 \<longrightarrow>
                    latencyMs (stop st now) = js_round L) \<and>
            (\<forall>L es. map diffMs (sessionNotes st @ flushedNotes st now) =
                      map (\<lambda>e. of_int L + e) es \<and> sum_list es = 0 \<longrightarrow>
                    latencyMs (stop st now) = L)"
    using calibration_rounds_mean [OF i t ns, of 0] by blast
  have st: "st = calibrationHeld" using r example_run_calibration by simp
  have l: "latencyMs (stop calibrationHeld 3400) = 10"
    using p [unfolded st, rule_format, OF cap, THEN conjunct2, THEN conjunct2, rule_format,
        of 10 "[10, - 10, 0]"] c z by blast
  have j: "js_round (sum_list (map diffMs (sessionNotes calibrationHeld @ flushedNotes calibrationHeld 3400)) /
             of_nat (length (sessionNotes calibrationHeld @ flushedNotes calibrationHeld 3400))) = 10"
    by (rule trans [OF p [unfolded st, rule_format, OF cap, THEN conjunct1, symmetric] l])
  show ?thesis
    using i t e example_run_calibration ns c l j z by (simp add: list_all_iff)
qed

theorem failed_calibration_leaves_zero_witness:
  "\<not> isPlaying (initialApp\<lparr>latencyMs := 25\<rparr>) \<and>
   40 \<le> tempo (initialApp\<lparr>latencyMs := 25\<rparr>) \<and> tempo (initialApp\<lparr>latencyMs := 25\<rparr>) \<le> 240 \<and>
   list_all (\<lambda>a. \<not> isStop a) introBeats \<and>
   latencyMs (initialApp\<lparr>latencyMs := 25\<rparr>) = 25 \<and>
   run (testLatency (initialApp\<lparr>latencyMs := 25\<rparr>) 0) introBeats =
     Some (initialApp\<lparr>isPlaying := True, isRecording := True, isLatencyTesting := True,
       debugInfo := CalibrationStarting, beatTimes := [100, 700, 1300, 1900, 2500]\<rparr>) \<and>
   debugInfo (stop (initialApp\<lparr>isPlaying := True, isRecording := True, isLatencyTesting := True,
       debugInfo := CalibrationStarting, beatTimes := [100, 700, 1300, 1900, 2500]\<rparr>) 9000)
     = CalibrationFailed \<and>
   latencyMs (stop (initialApp\<lparr>isPlaying := True, isRecording := True, isLatencyTesting := True,
       debugInfo := CalibrationStarting, beatTimes := [100, 700, 1300, 1900, 2500]\<rparr>) 9000) = 0"
proof -
  define silent where "silent = initialApp\<lparr>isPlaying := True, isRecording := True,
       isLatencyTesting := True, debugInfo := CalibrationStarting,
       beatTimes := [100, 700, 1300, 1900, 2500]\<rparr>"
  have i: "\<not> isPlaying (initialApp\<lparr>latencyMs := 25\<rparr>)"
    by (simp add: initialApp_def)
  have t: "40 \<le> tempo (initialApp\<lparr>latencyMs := 25\<rparr>)" "tempo (initialApp\<lparr>latencyMs := 25\<rparr>) \<le> 240"
    by (simp_all add: initialApp_def)
  have ns: "\<forall>a \<in> set introBeats. \<not> isStop a"
    by (simp add: introBeats_def)
  have cap: "sessionNotes silent @ flushedNotes silent 9000 = []"
    by (simp add: silent_def initialApp_def flushedNotes_def)
  obtain st where r: "run (testLatency (initialApp\<lparr>latencyMs := 25\<rparr>) 0) introBeats = Some st"
    and z: "latencyMs st = 0"
    and p: "\<forall>now. sessionNotes st @ flushedNotes st now = [] \<longrightarrow>
            debugInfo (stop st now) = CalibrationFailed \<and>
            latencyMs (stop st now) = latencyMs st"
    using failed_calibration_leaves_zero [OF i t ns, of 0] by blast
  have st: "st = silent" using r example_run_silent by (simp add: silent_def)
  have "debugInfo (stop silent 9000) = CalibrationFailed \<and> latencyMs (stop silent 9000) = 0"
    using p [unfolded st, rule_format, OF cap] z [unfolded st] by simp
  then show ?thesis
    using i t ns example_run_silent unfolding silent_def by (simp add: list_all_iff)
qed

section \<open>The scan of the notation assembler\<close>

lemma startsAt_iff: "startsAt pos cur \<longleftrightarrow> pos = cur"
proof
  assume "startsAt pos cur"
  then have "\<bar>(of_int (pos - cur) :: rat)\<bar> < 1 / 10" by (simp add: startsAt_def)
  then have "\<bar>(of_int (pos - cur) :: rat)\<bar> < of_int 1" by linarith
  then have "\<bar>pos - cur\<bar> < 1" 
    by (metis of_int_abs of_int_less_iff)
  then show "pos = cur" by linarith
next
  assume "pos = cur"
  then show "startsAt pos cur" by (simp add: startsAt_def)
qed

lemma startsAfter_iff: "startsAfter pos cur \<longleftrightarrow> cur < pos"
proof
  assume "startsAfter pos cur"
  then have "(of_int cur :: rat) < of_int pos" by (simp add: startsAfter_def)
  then show "cur < pos" by simp
next
  assume "cur < pos"
  then have "cur + 1 \<le> pos" by simp
  then have "(of_int (cur + 1) :: rat) \<le> of_int pos" by (simp only: of_int_le_iff)
  then show "startsAfter pos cur" by (simp add: startsAfter_def)
qed

lemma snapDuration_cases:
  "snapDuration x = (if 16 \<le> x then 16 else if 8 \<le> x then 8 else if 4 \<le> x then 4
                     else if 2 \<le> x then 2 else 1)"
  by (simp add: snapDuration_def)

lemma snapDuration_bounds: "1 \<le> snapDuration x" "1 \<le> x \<Longrightarrow> snapDuration x \<le> x"
  by (simp_all add: snapDuration_cases)

lemma snapDuration_le: "1 \<le> r \<Longrightarrow> snapDuration (min x r) \<le> r"
  using snapDuration_bounds(2) [of "min x r"] by (cases "1 \<le> min x r") (auto simp: snapDuration_cases)

lemma find_startsAfter:
  assumes "find (\<lambda>n. startsAfter (f n) cur) ns = Some n"
  shows "cur < f n"
  using assms by (auto simp: find_Some_iff startsAfter_iff)

lemma emitToken_dur:
  assumes M: "0 < ms" and cur: "0 \<le> cur" "cur < tot"
  shows "1 \<le> tokenDur (emitToken spb ms tot ns cur)"
    and "cur mod ms + tokenDur (emitToken spb ms tot ns cur) \<le> ms"
proof -
  have rem: "js_rem cur ms = cur mod ms"
    using cur M by (cases "cur = 0") (simp_all add: js_rem_def)
  have r1: "1 \<le> ms - cur mod ms"
    using M pos_mod_bound [of ms cur] by linarith
  show "1 \<le> tokenDur (emitToken spb ms tot ns cur)"
    by (simp add: emitToken_def Let_def snapDuration_bounds split: list.split)
  show "cur mod ms + tokenDur (emitToken spb ms tot ns cur) \<le> ms"
  proof (cases "filter (\<lambda>n. startsAt (getNotePos ms spb n) cur) ns")
    case Nil
    define av where "av = (case find (\<lambda>n. startsAfter (getNotePos ms spb n) cur) ns of
                          Some n \<Rightarrow> getNotePos ms spb n - cur | None \<Rightarrow> tot - cur)"
    have "1 \<le> av"
      using cur find_startsAfter [of "getNotePos ms spb" cur ns]
      by (auto simp: av_def split: option.split)
    have "tokenDur (emitToken spb ms tot ns cur) = snapDuration (min av (ms - cur mod ms))"
      using Nil by (simp add: emitToken_def Let_def rem av_def)
    then show ?thesis using snapDuration_le [OF r1, of av] by linarith
  next
    case (Cons n rest)
    then have "tokenDur (emitToken spb ms tot ns cur) =
                 snapDuration (min (foldl max (durationSixteenths n) (map durationSixteenths rest))
                                   (ms - cur mod ms))"
      by (simp add: emitToken_def Let_def rem)
    then show ?thesis
      using snapDuration_le [OF r1, of "foldl max (durationSixteenths n) (map durationSixteenths rest)"]
      by linarith
  qed
qed

lemma emitToken_hits:
  "tokenHits (emitToken spb ms tot ns cur) = filter (\<lambda>n. getNotePos ms spb n = cur) ns"
  by (simp add: emitToken_def Let_def startsAt_iff split: list.split)

lemma no_cross:
  fixes s d a ms :: int
  assumes M: "0 < ms" and a: "a mod ms = 0" and s: "s < a" and w: "s mod ms + d \<le> ms"
  shows "s + d \<le> a"
proof -
  have sa: "s = ms * (s div ms) + s mod ms" by simp
  have aa: "a = ms * (a div ms)" using a by (metis add.right_neutral mult_div_mod_eq)
  have "s div ms < a div ms"
  proof (rule ccontr)
    assume "\<not> s div ms < a div ms"
    then have "a div ms \<le> s div ms" by simp
    then have "ms * (a div ms) \<le> ms * (s div ms)" using M by (simp add: mult_left_mono)
    moreover have "0 \<le> s mod ms" using M by simp
    ultimately show False using sa aa s by linarith
  qed
  then have "s div ms + 1 \<le> a div ms" by simp
  then have "ms * (s div ms + 1) \<le> ms * (a div ms)" using M by (simp add: mult_left_mono)
  then have "ms * (s div ms) + ms \<le> a" using aa by (simp add: algebra_simps)
  then show ?thesis using sa w by linarith
qed

lemma buildTex_loop_unfold:
  "buildTex_loop spb ms tot ns cur =
     (if cur < tot then
        emitToken spb ms tot ns cur #
        buildTex_loop spb ms tot ns (cur + tokenDur (emitToken spb ms tot ns cur))
      else [])"
  by (rule buildTex_loop.simps)

text \<open>Every token written from cursor \<open>cur\<close> on starts at or after \<open>cur\<close> and stays in its bar.\<close>

lemma loop_spans:
  assumes "0 < ms" "0 \<le> cur"
    and "(s, d) \<in> set (tokenSpans cur (buildTex_loop spb ms tot ns cur))"
  shows "cur \<le> s \<and> s < tot \<and> 1 \<le> d \<and> withinBar ms (s, d)"
  using assms
proof (induction spb ms tot ns cur rule: buildTex_loop.induct)
  case (1 spb ms tot ns cur)
  show ?case
  proof (cases "cur < tot")
    case False
    then show ?thesis using "1.prems"(3) by (subst (asm) buildTex_loop_unfold) simp
  next
    case True
    define d0 where "d0 = tokenDur (emitToken spb ms tot ns cur)"
    have d0: "1 \<le> d0" "cur mod ms + d0 \<le> ms"
      using emitToken_dur [OF "1.prems"(1,2) True] by (simp_all add: d0_def)
    have "(s, d) = (cur, d0) \<or>
          (s, d) \<in> set (tokenSpans (cur + d0) (buildTex_loop spb ms tot ns (cur + d0)))"
      using "1.prems"(3) True by (subst (asm) buildTex_loop_unfold) (auto simp: d0_def)
    then show ?thesis
    proof
      assume "(s, d) = (cur, d0)"
      then show ?thesis using d0 True by (simp add: withinBar_def)
    next
      assume "(s, d) \<in> set (tokenSpans (cur + d0) (buildTex_loop spb ms tot ns (cur + d0)))"
      then have "cur + d0 \<le> s \<and> s < tot \<and> 1 \<le> d \<and> withinBar ms (s, d)"
        using "1.IH" [OF True "1.prems"(1)] "1.prems"(2) d0 by (simp add: d0_def)
      then show ?thesis using d0 by simp
    qed
  qed
qed

text \<open>
  The summed duration of the tokens that start in \<open>[a, b)\<close>, for two bar lines \<open>a\<close> and \<open>b\<close>,
  is the length of the part of \<open>[a, b)\<close> that lies between the cursor and the end.
\<close>

lemma loop_range_total:
  assumes "0 < ms" "0 \<le> cur" "tot mod ms = 0" "a mod ms = 0" "b mod ms = 0"
  shows "sum_list (map snd (filter (\<lambda>sd. a \<le> fst sd \<and> fst sd < b)
           (tokenSpans cur (buildTex_loop spb ms tot ns cur)))) =
         max 0 (min tot b - max cur a)"
  using assms
proof (induction spb ms tot ns cur rule: buildTex_loop.induct)
  case (1 spb ms tot ns cur)
  show ?case
  proof (cases "cur < tot")
    case False
    then show ?thesis by (subst buildTex_loop_unfold) simp
  next
    case True
    define d0 where "d0 = tokenDur (emitToken spb ms tot ns cur)"
    have d0: "1 \<le> d0" "cur mod ms + d0 \<le> ms"
      using emitToken_dur [OF "1.prems"(1,2) True] by (simp_all add: d0_def)
    have e: "cur + d0 \<le> tot"
      by (rule no_cross [OF "1.prems"(1,3) True d0(2)])
    have ca: "cur < a \<Longrightarrow> cur + d0 \<le> a"
      by (rule no_cross [OF "1.prems"(1,4) _ d0(2)])
    have cb: "cur < b \<Longrightarrow> cur + d0 \<le> b"
      by (rule no_cross [OF "1.prems"(1,5) _ d0(2)])
    have ih: "sum_list (map snd (filter (\<lambda>sd. a \<le> fst sd \<and> fst sd < b)
           (tokenSpans (cur + d0) (buildTex_loop spb ms tot ns (cur + d0))))) =
         max 0 (min tot b - max (cur + d0) a)"
      using "1.IH" [OF True "1.prems"(1) _ "1.prems"(3,4,5)] "1.prems"(2) d0 by (simp add: d0_def)
    have "sum_list (map snd (filter (\<lambda>sd. a \<le> fst sd \<and> fst sd < b)
           (tokenSpans cur (buildTex_loop spb ms tot ns cur)))) =
          (if a \<le> cur \<and> cur < b then d0 else 0) + max 0 (min tot b - max (cur + d0) a)"
      using True ih by (subst buildTex_loop_unfold) (simp add: d0_def)
    also have "\<dots> = max 0 (min tot b - max cur a)"
      using d0(1) e ca cb by (cases "cur < a"; cases "cur < b") (simp_all add: min_def max_def)
    finally show ?thesis .
  qed
qed

lemma div_eq_range:
  fixes s ms m :: int
  assumes "0 < ms"
  shows "s div ms = m \<longleftrightarrow> m * ms \<le> s \<and> s < m * ms + ms"
proof
  assume "s div ms = m"
  then have "s = ms * m + s mod ms" by (metis mult_div_mod_eq)
  then show "m * ms \<le> s \<and> s < m * ms + ms"
    using pos_mod_sign [OF assms, of s] pos_mod_bound [OF assms, of s]
    by (simp add: algebra_simps)
next
  assume h: "m * ms \<le> s \<and> s < m * ms + ms"
  show "s div ms = m"
  proof (rule int_div_pos_eq [of s ms m "s - m * ms"])
    show "s = ms * m + (s - m * ms)" by (simp add: algebra_simps)
    show "0 \<le> s - m * ms" using h by simp
    show "s - m * ms < ms" using h by simp
  qed
qed

lemma loop_measureTotal:
  assumes M: "0 < ms" and m: "0 \<le> m" "m < n"
  shows "measureTotal ms (tokenSpans 0 (buildTex_loop spb ms (n * ms) ns 0)) m = ms"
proof -
  have le: "(m + 1) * ms \<le> n * ms" using m M by (intro mult_right_mono) simp_all
  have ge: "0 \<le> m * ms" using m M by simp
  have "measureTotal ms (tokenSpans 0 (buildTex_loop spb ms (n * ms) ns 0)) m =
        sum_list (map snd (filter (\<lambda>sd. m * ms \<le> fst sd \<and> fst sd < m * ms + ms)
           (tokenSpans 0 (buildTex_loop spb ms (n * ms) ns 0))))"
    by (simp add: measureTotal_def div_eq_range [OF M])
  also have "\<dots> = max 0 (min (n * ms) (m * ms + ms) - max 0 (m * ms))"
    by (rule loop_range_total [OF M]) simp_all
  also have "\<dots> = ms" using le ge M by (simp add: algebra_simps)
  finally show ?thesis .
qed

lemma valid_measure_pos:
  "valid_config st \<Longrightarrow> 0 < beats (timeSig st) * sixteenthsPerBeat st"
  using valid_beats_pos [of st] valid_spb_pos [of st] by simp

text \<open>
  Claim C1. For every valid configuration and every list of recorded notes, those within the
  ranges of the session in particular, the durations of the tokens of \<open>buildTex\<close> that start
  in a measure sum to \<open>measureSixteenths\<close>, for every measure from 0 to \<open>measures - 1\<close>, and
  no token extends past the bar line that follows its start.
\<close>

theorem bar_closure:
  assumes v: "valid_config st"
  shows "(\<forall>m. 0 \<le> m \<and> m < measures st \<longrightarrow>
            measureTotal (beats (timeSig st) * sixteenthsPerBeat st)
              (tokenSpans 0 (buildTex st notes)) m =
            beats (timeSig st) * sixteenthsPerBeat st) \<and>
         (\<forall>sd \<in> set (tokenSpans 0 (buildTex st notes)).
            withinBar (beats (timeSig st) * sixteenthsPerBeat st) sd)"
proof (intro conjI allI impI ballI)
  fix m assume "0 \<le> m \<and> m < measures st"
  then show "measureTotal (beats (timeSig st) * sixteenthsPerBeat st)
              (tokenSpans 0 (buildTex st notes)) m =
            beats (timeSig st) * sixteenthsPerBeat st"
    using loop_measureTotal [OF valid_measure_pos [OF v], of m "measures st"]
    by (simp add: buildTex_def Let_def)
next
  fix sd assume "sd \<in> set (tokenSpans 0 (buildTex st notes))"
  then show "withinBar (beats (timeSig st) * sixteenthsPerBeat st) sd"
    using loop_spans [OF valid_measure_pos [OF v], of 0 "fst sd" "snd sd"]
    by (simp add: buildTex_def Let_def)
qed

lemma loop_hits_ge:
  assumes "0 < ms" "0 \<le> cur"
    and "tok \<in> set (buildTex_loop spb ms tot ns cur)" "n \<in> set (tokenHits tok)"
  shows "cur \<le> getNotePos ms spb n \<and> n \<in> set ns"
  using assms
proof (induction spb ms tot ns cur rule: buildTex_loop.induct)
  case (1 spb ms tot ns cur)
  show ?case
  proof (cases "cur < tot")
    case False
    then show ?thesis using "1.prems"(3) by (subst (asm) buildTex_loop_unfold) simp
  next
    case True
    define d0 where "d0 = tokenDur (emitToken spb ms tot ns cur)"
    have d0: "1 \<le> d0"
      using emitToken_dur(1) [OF "1.prems"(1,2) True] by (simp add: d0_def)
    have "tok = emitToken spb ms tot ns cur \<or>
          tok \<in> set (buildTex_loop spb ms tot ns (cur + d0))"
      using "1.prems"(3) True by (subst (asm) buildTex_loop_unfold) (auto simp: d0_def)
    then show ?thesis
    proof
      assume "tok = emitToken spb ms tot ns cur"
      then show ?thesis using "1.prems"(4) by (simp add: emitToken_hits)
    next
      assume "tok \<in> set (buildTex_loop spb ms tot ns (cur + d0))"
      then have "cur + d0 \<le> getNotePos ms spb n \<and> n \<in> set ns"
        using "1.IH" [OF True "1.prems"(1)] "1.prems"(2,4) d0 by (simp add: d0_def)
      then show ?thesis using d0 by simp
    qed
  qed
qed

text \<open>The notes of the token written at cursor \<open>s\<close> are the notes that start at \<open>s\<close>.\<close>

lemma loop_hits_at:
  assumes "0 < ms" "0 \<le> cur"
    and "i < length (buildTex_loop spb ms tot ns cur)"
  shows "tokenHits (buildTex_loop spb ms tot ns cur ! i) =
           filter (\<lambda>n. getNotePos ms spb n =
                        fst (tokenSpans cur (buildTex_loop spb ms tot ns cur) ! i)) ns"
  using assms
proof (induction spb ms tot ns cur arbitrary: i rule: buildTex_loop.induct)
  case (1 spb ms tot ns cur)
  show ?case
  proof (cases "cur < tot")
    case False
    then have "buildTex_loop spb ms tot ns cur = []"
      by (subst buildTex_loop_unfold) simp
    then show ?thesis using "1.prems"(3) by simp
  next
    case True
    define d0 where "d0 = tokenDur (emitToken spb ms tot ns cur)"
    have d0: "1 \<le> d0"
      using emitToken_dur(1) [OF "1.prems"(1,2) True] by (simp add: d0_def)
    have u: "buildTex_loop spb ms tot ns cur =
               emitToken spb ms tot ns cur # buildTex_loop spb ms tot ns (cur + d0)"
      using True by (subst buildTex_loop_unfold) (simp add: d0_def)
    show ?thesis
    proof (cases i)
      case 0
      then show ?thesis by (simp add: u emitToken_hits)
    next
      case (Suc j)
      then have "j < length (buildTex_loop spb ms tot ns (cur + d0))"
        using "1.prems"(3) by (simp add: u)
      then have "tokenHits (buildTex_loop spb ms tot ns (cur + d0) ! j) =
           filter (\<lambda>n. getNotePos ms spb n =
              fst (tokenSpans (cur + d0) (buildTex_loop spb ms tot ns (cur + d0)) ! j)) ns"
        using "1.IH" [OF True "1.prems"(1), of j] "1.prems"(2) d0 by (simp add: d0_def)
      then show ?thesis using Suc by (simp add: u d0_def)
    qed
  qed
qed

text \<open>No token holds a note that starts strictly inside the span of a token.\<close>

lemma loop_covered:
  assumes "0 < ms" "0 \<le> cur"
    and "(c, d) \<in> set (tokenSpans cur (buildTex_loop spb ms tot ns cur))"
    and "tok \<in> set (buildTex_loop spb ms tot ns cur)" "n \<in> set (tokenHits tok)"
  shows "\<not> (c < getNotePos ms spb n \<and> getNotePos ms spb n < c + d)"
  using assms
proof (induction spb ms tot ns cur rule: buildTex_loop.induct)
  case (1 spb ms tot ns cur)
  show ?case
  proof (cases "cur < tot")
    case False
    then show ?thesis using "1.prems"(3) by (subst (asm) buildTex_loop_unfold) simp
  next
    case True
    define d0 where "d0 = tokenDur (emitToken spb ms tot ns cur)"
    define rest where "rest = buildTex_loop spb ms tot ns (cur + d0)"
    have d0: "1 \<le> d0"
      using emitToken_dur(1) [OF "1.prems"(1,2) True] by (simp add: d0_def)
    have u: "buildTex_loop spb ms tot ns cur = emitToken spb ms tot ns cur # rest"
      using True by (subst buildTex_loop_unfold) (simp add: d0_def rest_def)
    have c0: "0 \<le> cur + d0" using "1.prems"(2) d0 by simp
    have sp: "(c, d) = (cur, d0) \<or> (c, d) \<in> set (tokenSpans (cur + d0) rest)"
      using "1.prems"(3) by (auto simp: u d0_def)
    have tk: "tok = emitToken spb ms tot ns cur \<or> tok \<in> set rest"
      using "1.prems"(4) by (auto simp: u)
    have first: "tok = emitToken spb ms tot ns cur \<Longrightarrow> getNotePos ms spb n = cur"
      using "1.prems"(5) by (simp add: emitToken_hits)
    have later: "tok \<in> set rest \<Longrightarrow> cur + d0 \<le> getNotePos ms spb n"
      using loop_hits_ge [OF "1.prems"(1) c0, of tok spb tot ns n] "1.prems"(5)
      by (simp add: rest_def)
    have spl: "(c, d) \<in> set (tokenSpans (cur + d0) rest) \<Longrightarrow> cur + d0 \<le> c"
      using loop_spans [OF "1.prems"(1) c0, of c d spb tot ns] by (simp add: rest_def)
    have ih: "(c, d) \<in> set (tokenSpans (cur + d0) rest) \<Longrightarrow> tok \<in> set rest \<Longrightarrow>
          \<not> (c < getNotePos ms spb n \<and> getNotePos ms spb n < c + d)"
      using "1.IH" [OF True "1.prems"(1)] c0 "1.prems"(5) by (simp add: d0_def rest_def)
    show ?thesis
      using sp tk first later spl ih d0 by auto
  qed
qed

text \<open>
  Claim C10. A recorded note whose start position lies strictly between the cursor position
  of a token and that position plus the token's duration is in the \<open>hits\<close> of no token: the
  \<open>hits\<close> of every token are exactly the notes that start at the cursor position where the
  token was written.
\<close>

theorem covered_note_omitted:
  assumes v: "valid_config st"
    and sp: "(c, d) \<in> set (tokenSpans 0 (buildTex st notes))"
    and inside: "c < getNotePos (beats (timeSig st) * sixteenthsPerBeat st) (sixteenthsPerBeat st) n"
      "getNotePos (beats (timeSig st) * sixteenthsPerBeat st) (sixteenthsPerBeat st) n < c + d"
  shows "(\<forall>tok \<in> set (buildTex st notes). n \<notin> set (tokenHits tok)) \<and>
         (\<forall>i < length (buildTex st notes).
            tokenHits (buildTex st notes ! i) =
              filter (\<lambda>n'. getNotePos (beats (timeSig st) * sixteenthsPerBeat st)
                              (sixteenthsPerBeat st) n' =
                            fst (tokenSpans 0 (buildTex st notes) ! i))
                (sort_key (getNotePos (beats (timeSig st) * sixteenthsPerBeat st)
                              (sixteenthsPerBeat st)) notes))"
proof (intro conjI ballI allI impI)
  fix tok assume "tok \<in> set (buildTex st notes)"
  then show "n \<notin> set (tokenHits tok)"
    using loop_covered [OF valid_measure_pos [OF v], of 0 c d "sixteenthsPerBeat st" _ _ tok n]
      sp inside
    by (auto simp: buildTex_def Let_def)
next
  fix i assume "i < length (buildTex st notes)"
  then show "tokenHits (buildTex st notes ! i) =
              filter (\<lambda>n'. getNotePos (beats (timeSig st) * sixteenthsPerBeat st)
                              (sixteenthsPerBeat st) n' =
                            fst (tokenSpans 0 (buildTex st notes) ! i))
                (sort_key (getNotePos (beats (timeSig st) * sixteenthsPerBeat st)
                              (sixteenthsPerBeat st)) notes)"
    using loop_hits_at [OF valid_measure_pos [OF v], of 0 i "sixteenthsPerBeat st"]
    by (simp add: buildTex_def Let_def)
qed

lemma example_tokens:
  "buildTex exampleSession exampleNotes =
     [NoteToken
        [\<lparr>midi = 60, diffMs = 0, measure = 0, beatIndex = 0, sixteenthIndex = 0,
           durationSixteenths = 4\<rparr>,
         \<lparr>midi = 64, diffMs = 12, measure = 0, beatIndex = 0, sixteenthIndex = 0,
           durationSixteenths = 6\<rparr>] 4,
      RestToken 8, RestToken 2,
      NoteToken
        [\<lparr>midi = 67, diffMs = 3, measure = 0, beatIndex = 3, sixteenthIndex = 2,
           durationSixteenths = 8\<rparr>] 2,
      RestToken 16]"
  by (simp add: buildTex_def exampleSession_def exampleNotes_def sixteenthsPerBeat_def Let_def
      getNotePos_def buildTex_loop_unfold emitToken_def startsAt_iff startsAfter_iff js_rem_def
      snapDuration_cases)

theorem bar_closure_witness:
  "valid_config exampleSession \<and>
   tokenSpans 0 (buildTex exampleSession exampleNotes) =
     [(0, 4), (4, 8), (12, 2), (14, 2), (16, 16)] \<and>
   measureTotal 16 (tokenSpans 0 (buildTex exampleSession exampleNotes)) 0 = 16 \<and>
   measureTotal 16 (tokenSpans 0 (buildTex exampleSession exampleNotes)) 1 = 16 \<and>
   list_all (withinBar 16) (tokenSpans 0 (buildTex exampleSession exampleNotes))"
proof -
  have sp: "tokenSpans 0 (buildTex exampleSession exampleNotes) =
     [(0, 4), (4, 8), (12, 2), (14, 2), (16, 16)]"
    by (simp add: example_tokens)
  have m: "beats (timeSig exampleSession) * sixteenthsPerBeat exampleSession = 16"
    "measures exampleSession = 2"
    by (simp_all add: example_config) (simp_all add: exampleSession_def)
  show ?thesis
    using bar_closure [OF example_config(1), of exampleNotes] sp
    unfolding m by (simp add: example_config list_all_iff)
qed

theorem covered_note_omitted_witness:
  "valid_config exampleSession \<and>
   (0, 4) \<in> set (tokenSpans 0 (buildTex exampleSession exampleNotes)) \<and>
   getNotePos 16 4 (exampleNotes ! 3) = 3 \<and>
   exampleNotes ! 3 \<notin> set (tokenHits (buildTex exampleSession exampleNotes ! 0)) \<and>
   exampleNotes ! 3 \<notin> set (tokenHits (buildTex exampleSession exampleNotes ! 1)) \<and>
   exampleNotes ! 3 \<notin> set (tokenHits (buildTex exampleSession exampleNotes ! 2)) \<and>
   exampleNotes ! 3 \<notin> set (tokenHits (buildTex exampleSession exampleNotes ! 3)) \<and>
   exampleNotes ! 3 \<notin> set (tokenHits (buildTex exampleSession exampleNotes ! 4)) \<and>
   map midi (tokenHits (buildTex exampleSession exampleNotes ! 0)) = [60, 64]"
proof -
  have sp: "(0, 4) \<in> set (tokenSpans 0 (buildTex exampleSession exampleNotes))"
    by (simp add: example_tokens)
  have m: "beats (timeSig exampleSession) * sixteenthsPerBeat exampleSession = 16"
    "sixteenthsPerBeat exampleSession = 4"
    by (simp_all add: example_config) (simp_all add: exampleSession_def)
  have p: "getNotePos 16 4 (exampleNotes ! 3) = 3"
    by (simp add: exampleNotes_def getNotePos_def)
  have len: "length (buildTex exampleSession exampleNotes) = 5"
    by (simp add: example_tokens)
  have i: "0 < getNotePos (beats (timeSig exampleSession) * sixteenthsPerBeat exampleSession)
                 (sixteenthsPerBeat exampleSession) (exampleNotes ! 3)"
    "getNotePos (beats (timeSig exampleSession) * sixteenthsPerBeat exampleSession)
                 (sixteenthsPerBeat exampleSession) (exampleNotes ! 3) < 0 + 4"
    using p by (simp_all add: example_config) (simp_all add: exampleSession_def)
  have "\<forall>tok \<in> set (buildTex exampleSession exampleNotes).
          exampleNotes ! 3 \<notin> set (tokenHits tok)"
    by (rule covered_note_omitted [OF example_config(1) sp i, THEN conjunct1])
  then have a: "\<forall>i < 5. exampleNotes ! 3 \<notin> set (tokenHits (buildTex exampleSession exampleNotes ! i))"
    using len by (metis nth_mem)
  have f: "exampleNotes ! 3 \<notin> set (tokenHits (buildTex exampleSession exampleNotes ! 0))"
    "exampleNotes ! 3 \<notin> set (tokenHits (buildTex exampleSession exampleNotes ! 1))"
    "exampleNotes ! 3 \<notin> set (tokenHits (buildTex exampleSession exampleNotes ! 2))"
    "exampleNotes ! 3 \<notin> set (tokenHits (buildTex exampleSession exampleNotes ! 3))"
    "exampleNotes ! 3 \<notin> set (tokenHits (buildTex exampleSession exampleNotes ! 4))"
    using a by simp_all
  have h: "map midi (tokenHits (buildTex exampleSession exampleNotes ! 0)) = [60, 64]"
    by (simp add: example_tokens)
  show ?thesis
    using example_config(1) sp p f h by blast
qed

end
